theory Spec2Isabelle
  imports Complex_Main
begin

section \<open>Conventions of the embedding\<close>

text \<open>
  The C sources are embedded function by function. A \<open>float\<close> is read as a real number
  (the properties below compare values and take means of small exactly representable
  numbers), a C \<open>int\<close> or \<open>int64_t\<close> as an integer (no counter of these modules leaves
  its small range), a fixed \<open>char\<close> array as a list of bytes of that length, and a module's
  static variables as a record that every function takes and returns. A function that
  returns \<open>0\<close> or a negative errno returns \<open>int + 'a\<close>, with \<open>Inl\<close> the negative code.
\<close>

definition EINVAL :: int where "EINVAL = 22"
definition ENOENT :: int where "ENOENT = 2"

text \<open>The remainder of C's \<open>%\<close>, which truncates towards zero.\<close>

definition c_rem :: "int \<Rightarrow> int \<Rightarrow> int" where
  "c_rem a b = sgn a * (\<bar>a\<bar> mod \<bar>b\<bar>)"

text \<open>C's integer division, which truncates towards zero, and the cast of a \<open>float\<close> to
  \<open>int64_t\<close>, which drops the fraction.\<close>

definition c_quot :: "int \<Rightarrow> int \<Rightarrow> int" where
  "c_quot a b = sgn a * sgn b * (\<bar>a\<bar> div \<bar>b\<bar>)"

definition c_trunc :: "real \<Rightarrow> int" where
  "c_trunc x = (if 0 \<le> x then \<lfloor>x\<rfloor> else \<lceil>x\<rceil>)"

subsection \<open>Strings in fixed buffers\<close>

abbreviation NUL :: char where "NUL \<equiv> CHR 0x00"

text \<open>The string a buffer holds: its bytes before the first terminator.\<close>

definition c_str :: "string \<Rightarrow> string" where
  "c_str buf = takeWhile (\<lambda>c. c \<noteq> NUL) buf"

text \<open>\<open>strncpy(dst, src, n)\<close>: exactly \<open>n\<close> bytes are written, the source string padded with
  terminators; the rest of \<open>dst\<close> is kept.\<close>

definition strncpy :: "string \<Rightarrow> string \<Rightarrow> nat \<Rightarrow> string" where
  "strncpy dst src n = take n (c_str src @ replicate n NUL) @ drop n dst"

text \<open>\<open>snprintf(buf + off, size, lit)\<close> for a literal without conversions: with \<open>size > 0\<close>
  it writes at most \<open>size - 1\<close> bytes of the literal and a terminator, keeps every other byte,
  and returns the length of the literal.\<close>

definition snprintf_at :: "string \<Rightarrow> nat \<Rightarrow> nat \<Rightarrow> string \<Rightarrow> string \<times> nat" where
  "snprintf_at buf off sz lit =
     (if sz = 0 then (buf, length lit)
      else (let w = take (sz - 1) lit
            in (take off buf @ w @ [NUL] @ drop (off + length w + 1) buf, length lit)))"

section \<open>Offline telemetry cache (data_cache.c)\<close>

definition MAX_CACHED_ENTRIES :: int where "MAX_CACHED_ENTRIES = 48"

record cached_sensor_reading =
  cr_soil_moisture :: real
  cr_light_level :: real
  cr_temperature :: real
  cr_humidity :: real
  cr_air_movement :: real
  cr_timestamp :: int
  cr_health_status :: int
  cr_env_mismatch :: string
  cr_plant_status :: string
  cr_valid :: bool

text \<open>The module's statics: the slot array, the index of the next write, the number of
  valid entries.\<close>

record data_cache =
  cache :: "cached_sensor_reading list"
  cache_head :: int
  cache_count :: int

text \<open>A slot after \<open>memset(cache, 0, sizeof(cache))\<close>.\<close>

definition zero_reading :: cached_sensor_reading where
  "zero_reading = \<lparr>cr_soil_moisture = 0, cr_light_level = 0, cr_temperature = 0,
     cr_humidity = 0, cr_air_movement = 0, cr_timestamp = 0, cr_health_status = 0,
     cr_env_mismatch = replicate 32 NUL, cr_plant_status = replicate 32 NUL,
     cr_valid = False\<rparr>"

definition data_cache_init :: "int \<times> data_cache" where
  "data_cache_init =
     (0, \<lparr>cache = replicate (nat MAX_CACHED_ENTRIES) zero_reading,
          cache_head = 0, cache_count = 0\<rparr>)"

text \<open>The arguments of one call of \<open>data_cache_add_reading\<close>.\<close>

record reading_args =
  a_soil_moisture :: real
  a_light_level :: real
  a_temperature :: real
  a_humidity :: real
  a_air_movement :: real
  a_timestamp :: int
  a_health_status :: int
  a_env_mismatch :: string
  a_plant_status :: string

text \<open>The assignments to \<open>cache[cache_head]\<close>: the numeric fields, the two strings copied
  with \<open>strncpy\<close> of \<open>sizeof - 1 = 31\<close> bytes and terminated at byte 31, the valid flag.\<close>

definition write_slot :: "cached_sensor_reading \<Rightarrow> reading_args \<Rightarrow> cached_sensor_reading" where
  "write_slot old a =
     old\<lparr>cr_soil_moisture := a_soil_moisture a,
         cr_light_level := a_light_level a,
         cr_temperature := a_temperature a,
         cr_humidity := a_humidity a,
         cr_air_movement := a_air_movement a,
         cr_timestamp := a_timestamp a,
         cr_health_status := a_health_status a,
         cr_env_mismatch := (strncpy (cr_env_mismatch old) (a_env_mismatch a) 31)[31 := NUL],
         cr_plant_status := (strncpy (cr_plant_status old) (a_plant_status a) 31)[31 := NUL],
         cr_valid := True\<rparr>"

definition data_cache_add_reading :: "data_cache \<Rightarrow> reading_args \<Rightarrow> int \<times> data_cache" where
  "data_cache_add_reading dc a =
     (let h = nat (cache_head dc);
          slots = (cache dc)[h := write_slot (cache dc ! h) a];
          head' = c_rem (cache_head dc + 1) MAX_CACHED_ENTRIES;
          count' = (if cache_count dc < MAX_CACHED_ENTRIES then cache_count dc + 1
                    else cache_count dc)
      in (0, \<lparr>cache = slots, cache_head = head', cache_count = count'\<rparr>))"

definition data_cache_count :: "data_cache \<Rightarrow> int" where
  "data_cache_count dc = cache_count dc"

text \<open>\<open>reading_out\<close> is \<open>None\<close> for a null pointer; on success the slot is copied out.\<close>

definition data_cache_get_reading ::
  "data_cache \<Rightarrow> int \<Rightarrow> cached_sensor_reading option \<Rightarrow> int + cached_sensor_reading" where
  "data_cache_get_reading dc index reading_out =
     (if reading_out = None \<or> index < 0 \<or> index \<ge> cache_count dc then Inl (- EINVAL)
      else (let actual_index =
                  (if cache_count dc < MAX_CACHED_ENTRIES then index
                   else c_rem (cache_head dc + index) MAX_CACHED_ENTRIES)
            in if \<not> cr_valid (cache dc ! nat actual_index) then Inl (- ENOENT)
               else Inr (cache dc ! nat actual_index)))"

definition data_cache_clear :: "data_cache \<Rightarrow> int \<times> data_cache" where
  "data_cache_clear dc =
     (0, \<lparr>cache = replicate (nat MAX_CACHED_ENTRIES) zero_reading,
          cache_head = 0, cache_count = 0\<rparr>)"

text \<open>What the module guarantees of its statics: 48 slots with 32-byte strings, the cursor
  and the count in range, the cursor equal to the count until the ring is full, and every
  counted slot valid.\<close>

definition cache_inv :: "data_cache \<Rightarrow> bool" where
  "cache_inv dc \<longleftrightarrow>
     length (cache dc) = 48 \<and>
     0 \<le> cache_head dc \<and> cache_head dc < MAX_CACHED_ENTRIES \<and>
     0 \<le> cache_count dc \<and> cache_count dc \<le> MAX_CACHED_ENTRIES \<and>
     (cache_count dc < MAX_CACHED_ENTRIES \<longrightarrow> cache_head dc = cache_count dc) \<and>
     (\<forall>j < nat (cache_count dc). cr_valid (cache dc ! j)) \<and>
     (\<forall>j < 48. length (cr_env_mismatch (cache dc ! j)) = 32 \<and>
               length (cr_plant_status (cache dc ! j)) = 32)"

text \<open>The entries in logical order, oldest first, as \<open>data_cache_get_reading\<close> indexes
  them.\<close>

definition logical :: "data_cache \<Rightarrow> cached_sensor_reading list" where
  "logical dc =
     (if cache_count dc < MAX_CACHED_ENTRIES then take (nat (cache_count dc)) (cache dc)
      else rotate (nat (cache_head dc)) (cache dc))"

text \<open>The slot contents that one call stores: independent of what the slot held.\<close>

definition stored :: "reading_args \<Rightarrow> cached_sensor_reading" where
  "stored a = write_slot zero_reading a"

definition enqueue :: "data_cache \<Rightarrow> reading_args \<Rightarrow> data_cache" where
  "enqueue dc a = snd (data_cache_add_reading dc a)"


subsection \<open>Persisting the cache (data_cache.c, storage.c)\<close>

text \<open>The flash store keeps one value per key. The driver's write is outside the repository:
  \<open>wr key\<close> is the code it returns for a write under \<open>key\<close>, negative for a failure. The keys
  are built with \<open>snprintf\<close> into 64 bytes.\<close>

datatype nvs_value = CacheMeta int int | CacheData "cached_sensor_reading list"

type_synonym nvs = "string \<rightharpoonup> nvs_value"

definition storage_save_value ::
  "(string \<Rightarrow> int) \<Rightarrow> nvs \<Rightarrow> string \<Rightarrow> nvs_value \<Rightarrow> int \<times> nvs" where
  "storage_save_value wr st key v =
     (let rc = wr key in if rc < 0 then (rc, st) else (0, st(key \<mapsto> v)))"

definition data_cache_save ::
  "(string \<Rightarrow> int) \<Rightarrow> nvs \<Rightarrow> string \<Rightarrow> data_cache \<Rightarrow> int \<times> nvs" where
  "data_cache_save wr st serial_number dc =
     (let key = take 63 (''cache/meta/'' @ serial_number);
          (ret, st1) = storage_save_value wr st key (CacheMeta (cache_head dc) (cache_count dc))
      in if ret < 0 then (ret, st1)
         else (let key' = take 63 (''cache/data/'' @ serial_number);
                   (ret', st2) = storage_save_value wr st1 key' (CacheData (cache dc))
               in if ret' < 0 then (ret', st2) else (0, st2)))"






section \<open>Sending cached and live readings (sensor_work_handler in main.c)\<close>

text \<open>One call of \<open>firebase_send_sensor_data\<close>: the reading's fields and the recommendation
  text (the serial number, plant name and variety are the same in every call). The upload
  itself is outside the repository: a sink gives the return code of a call from the calls
  made before it and the call itself, and the calls made are logged in order.\<close>

type_synonym upload = "reading_args \<times> string"

type_synonym sink = "upload list \<Rightarrow> upload \<Rightarrow> int"

definition firebase_send_sensor_data :: "sink \<Rightarrow> upload list \<Rightarrow> upload \<Rightarrow> int \<times> upload list" where
  "firebase_send_sensor_data snk sent u = (snk sent u, sent @ [u])"

text \<open>The arguments taken from a cached reading.\<close>

definition args_of :: "cached_sensor_reading \<Rightarrow> reading_args" where
  "args_of r = \<lparr>a_soil_moisture = cr_soil_moisture r, a_light_level = cr_light_level r,
     a_temperature = cr_temperature r, a_humidity = cr_humidity r,
     a_air_movement = cr_air_movement r, a_timestamp = cr_timestamp r,
     a_health_status = cr_health_status r, a_env_mismatch = c_str (cr_env_mismatch r),
     a_plant_status = c_str (cr_plant_status r)\<rparr>"

text \<open>The loop over the cached readings: \<open>for (i = 0; i < cache_count; i++)\<close>, which skips
  an index that \<open>data_cache_get_reading\<close> refuses and leaves at the first failed upload
  with \<open>all_sent = false\<close>.\<close>

function send_cached ::
  "sink \<Rightarrow> data_cache \<Rightarrow> string \<Rightarrow> int \<Rightarrow> int \<Rightarrow> upload list \<Rightarrow> bool \<times> upload list" where
  "send_cached snk dc recommendation cache_count' i sent =
     (if i < cache_count' then
        (case data_cache_get_reading dc i (Some zero_reading) of
           Inr cached_reading \<Rightarrow>
             (let (ret, sent') = firebase_send_sensor_data snk sent
                                  (args_of cached_reading, recommendation)
              in if ret < 0 then (False, sent')
                 else send_cached snk dc recommendation cache_count' (i + 1) sent')
         | Inl _ \<Rightarrow> send_cached snk dc recommendation cache_count' (i + 1) sent)
      else (True, sent))"
  by pat_completeness auto
termination
  by (relation "measure (\<lambda>(snk, dc, r, n, i, sent). nat (n - i))") auto

declare send_cached.simps [simp del]

text \<open>The connected branch up to the upload of the live reading: the cached readings are
  sent first, the cache is cleared and saved when all of them were sent, and the live
  reading is sent after that whatever the outcome.\<close>

definition send_when_connected ::
  "sink \<Rightarrow> (string \<Rightarrow> int) \<Rightarrow> string \<Rightarrow> string \<Rightarrow> reading_args \<Rightarrow>
   data_cache \<times> nvs \<times> upload list \<Rightarrow> int \<times> data_cache \<times> nvs \<times> upload list" where
  "send_when_connected snk wr serial_number recommendation current = (\<lambda>(dc, st, sent).
     (let cache_count' = data_cache_count dc;
          (dc1, st1, sent1) =
            (if cache_count' > 0 then
               (let (all_sent, sent') = send_cached snk dc recommendation cache_count' 0 sent
                in if all_sent then
                     (let dc' = snd (data_cache_clear dc);
                          st' = snd (data_cache_save wr st serial_number dc')
                      in (dc', st', sent'))
                   else (dc, st, sent'))
             else (dc, st, sent));
          (ret, sent2) = firebase_send_sensor_data snk sent1 (current, recommendation)
      in (ret, dc1, st1, sent2)))"

text \<open>The uploads in the words of the specification: the position of the first upload of a
  list that the sink refuses, if any.\<close>

fun first_failure :: "sink \<Rightarrow> upload list \<Rightarrow> upload list \<Rightarrow> nat option" where
  "first_failure snk sent [] = None"
| "first_failure snk sent (u # us) =
     (if snk sent u < 0 then Some 0
      else map_option Suc (first_failure snk (sent @ [u]) us))"

definition cached_uploads :: "data_cache \<Rightarrow> string \<Rightarrow> upload list" where
  "cached_uploads dc recommendation = map (\<lambda>r. (args_of r, recommendation)) (logical dc)"

definition attempted :: "sink \<Rightarrow> upload list \<Rightarrow> upload list \<Rightarrow> upload list" where
  "attempted snk sent us =
     (case first_failure snk sent us of None \<Rightarrow> us | Some j \<Rightarrow> take (Suc j) us)"

section \<open>Sensor history and health analysis (ml_analysis.c)\<close>

definition ML_HEALTH_HEALTHY :: int where "ML_HEALTH_HEALTHY = 0"
definition ML_HEALTH_STRESSED :: int where "ML_HEALTH_STRESSED = 1"
definition ML_HEALTH_CRITICAL :: int where "ML_HEALTH_CRITICAL = 2"

text \<open>One element of \<open>history[5]\<close>: 24 hourly values, the next write position, the flag set
  once the position has wrapped.\<close>

record channel_history =
  h_values :: "real list"
  h_index :: int
  h_filled :: bool

record sensor_data_with_history =
  soil_moisture :: real
  light_level :: real
  temperature :: real
  humidity :: real
  air_movement :: real
  timestamp :: int
  history :: "channel_history list"

record habitat_data =
  plant_id :: string
  ideal_temperature_min :: real
  ideal_temperature_max :: real
  ideal_humidity_min :: real
  ideal_humidity_max :: real
  ideal_soil_moisture_min :: real
  ideal_soil_moisture_max :: real
  ideal_light_level_min :: real
  ideal_light_level_max :: real
  native_region :: string
  growing_season :: string
  data_valid :: bool
  hd_timestamp :: int

text \<open>The result structure; the four flags are its \<open>environmental_mismatch\<close> member and
  \<open>recommendation\<close> is a buffer of 256 bytes.\<close>

record ml_analysis_result =
  health_status :: int
  confidence :: real
  mismatch_temperature :: bool
  mismatch_humidity :: bool
  mismatch_soil_moisture :: bool
  mismatch_light_level :: bool
  recommendation :: string

definition is_temp_mismatch :: "real \<Rightarrow> habitat_data \<Rightarrow> bool" where
  "is_temp_mismatch temp habitat \<longleftrightarrow>
     temp < ideal_temperature_min habitat \<or> temp > ideal_temperature_max habitat"

definition is_humidity_mismatch :: "real \<Rightarrow> habitat_data \<Rightarrow> bool" where
  "is_humidity_mismatch hum habitat \<longleftrightarrow>
     hum < ideal_humidity_min habitat \<or> hum > ideal_humidity_max habitat"

definition is_moisture_mismatch :: "real \<Rightarrow> habitat_data \<Rightarrow> bool" where
  "is_moisture_mismatch moisture habitat \<longleftrightarrow>
     moisture < ideal_soil_moisture_min habitat \<or> moisture > ideal_soil_moisture_max habitat"

definition is_light_mismatch :: "real \<Rightarrow> habitat_data \<Rightarrow> bool" where
  "is_light_mismatch light habitat \<longleftrightarrow>
     light < ideal_light_level_min habitat \<or> light > ideal_light_level_max habitat"

definition compute_temp_diff :: "real \<Rightarrow> habitat_data \<Rightarrow> real" where
  "compute_temp_diff temp habitat =
     (let ideal_mid = (ideal_temperature_min habitat + ideal_temperature_max habitat) / 2
      in temp - ideal_mid)"

definition compute_humidity_diff :: "real \<Rightarrow> habitat_data \<Rightarrow> real" where
  "compute_humidity_diff hum habitat =
     (let ideal_mid = (ideal_humidity_min habitat + ideal_humidity_max habitat) / 2
      in hum - ideal_mid)"

definition compute_moisture_diff :: "real \<Rightarrow> habitat_data \<Rightarrow> real" where
  "compute_moisture_diff moisture habitat =
     (let ideal_mid = (ideal_soil_moisture_min habitat + ideal_soil_moisture_max habitat) / 2
      in moisture - ideal_mid)"

definition compute_light_diff :: "real \<Rightarrow> habitat_data \<Rightarrow> real" where
  "compute_light_diff light habitat =
     (let ideal_mid = (ideal_light_level_min habitat + ideal_light_level_max habitat) / 2
      in light - ideal_mid)"

text \<open>One conditional \<open>written += snprintf(recommendation + written, rec_size - written, lit)\<close>
  on the 256-byte buffer.\<close>

definition emit :: "bool \<Rightarrow> string \<Rightarrow> string \<times> nat \<Rightarrow> string \<times> nat" where
  "emit flag lit = (\<lambda>(buf, written).
     if flag then (let (buf', n) = snprintf_at buf written (256 - written) lit
                   in (buf', written + n))
     else (buf, written))"

definition generate_recommendations :: "ml_analysis_result \<Rightarrow> ml_analysis_result" where
  "generate_recommendations result =
     (let start = (recommendation result, 0);
          (buf, written) =
            (if health_status result = ML_HEALTH_HEALTHY
             then emit True ''Plant is healthy. '' start
             else emit (mismatch_light_level result) ''Adjust light exposure. ''
                   (emit (mismatch_soil_moisture result) ''Adjust watering schedule. ''
                     (emit (mismatch_humidity result) ''Adjust humidity level. ''
                       (emit (mismatch_temperature result) ''Adjust temperature. '' start))))
      in result\<lparr>recommendation := buf\<rparr>)"

text \<open>The body of \<open>if (last_hourly_update == 0 || now - last_hourly_update >= 3600)\<close> for one
  channel; the source writes it out once for each of \<open>history[0]\<close> to \<open>history[4]\<close>.\<close>

definition history_push :: "channel_history \<Rightarrow> real \<Rightarrow> channel_history" where
  "history_push h v =
     (let vals = (h_values h)[nat (h_index h) := v];
          idx = c_rem (h_index h + 1) 24
      in \<lparr>h_values = vals, h_index = idx,
          h_filled = (if idx = 0 then True else h_filled h)\<rparr>)"

text \<open>\<open>ml_add_sensor_reading\<close>, with the function's static \<open>last_hourly_update\<close> passed in
  and returned, and the value of \<open>k_uptime_get()\<close> in milliseconds as an argument. A null
  \<open>sensor_data\<close> is \<open>None\<close>.\<close>

definition ml_add_sensor_reading ::
  "int \<Rightarrow> int \<Rightarrow> sensor_data_with_history option \<Rightarrow>
   real \<Rightarrow> real \<Rightarrow> real \<Rightarrow> real \<Rightarrow> real \<Rightarrow> int + (int \<times> sensor_data_with_history)" where
  "ml_add_sensor_reading last_hourly_update uptime sensor_data
      soil_moisture' light_level' temperature' humidity' air_movement' =
     (case sensor_data of
        None \<Rightarrow> Inl (- EINVAL)
      | Some sd \<Rightarrow>
          (let sd1 = sd\<lparr>soil_moisture := soil_moisture', light_level := light_level',
                         temperature := temperature', humidity := humidity',
                         air_movement := air_movement', timestamp := c_quot uptime 1000\<rparr>;
               now = timestamp sd1
           in if last_hourly_update = 0 \<or> now - last_hourly_update \<ge> 3600 then
                (let hs = history sd1;
                     hs0 = hs[0 := history_push (hs ! 0) soil_moisture'];
                     hs1 = hs0[1 := history_push (hs0 ! 1) light_level'];
                     hs2 = hs1[2 := history_push (hs1 ! 2) temperature'];
                     hs3 = hs2[3 := history_push (hs2 ! 3) humidity'];
                     hs4 = hs3[4 := history_push (hs3 ! 4) air_movement']
                 in Inr (now, sd1\<lparr>history := hs4\<rparr>))
              else Inr (last_hourly_update, sd1)))"

text \<open>The inner loop of the averages: \<open>for (j = 0; j < history_len; j++)\<close>.\<close>

function average_loop :: "real list \<Rightarrow> int \<Rightarrow> int \<Rightarrow> real \<times> int \<Rightarrow> real \<times> int" where
  "average_loop vals history_len j (sm, count) =
     (if j < history_len
      then average_loop vals history_len (j + 1) (sm + vals ! nat j, count + 1)
      else (sm, count))"
  by pat_completeness auto
termination
  by (relation "measure (\<lambda>(vals, n, j, acc). nat (n - j))") auto

declare average_loop.simps [simp del]

text \<open>\<open>model_input[10 + i]\<close> for channel \<open>i\<close>, given \<open>model_input[i]\<close>.\<close>

definition rolling_average :: "channel_history \<Rightarrow> real \<Rightarrow> real" where
  "rolling_average h current =
     (let history_len = (if h_filled h then 24 else h_index h);
          (sm, count) = average_loop (h_values h) history_len 0 (0, 0)
      in if count > 0 then sm / real_of_int count else current)"

text \<open>The 15 inputs of the model as \<open>ml_analyze_plant_health\<close> fills them.\<close>

definition model_input :: "sensor_data_with_history \<Rightarrow> habitat_data \<Rightarrow> real list" where
  "model_input sd habitat =
     (let current = [soil_moisture sd, light_level sd, temperature sd, humidity sd,
                     air_movement sd];
          diffs = [compute_moisture_diff (soil_moisture sd) habitat,
                   compute_light_diff (light_level sd) habitat,
                   compute_temp_diff (temperature sd) habitat,
                   compute_humidity_diff (humidity sd) habitat,
                   0]
      in current @ diffs @
         map (\<lambda>i. rolling_average (history sd ! i) (current ! i)) [0..<5])"

text \<open>The search for the largest of the three outputs: \<open>for (i = 1; i < 3; i++)\<close>.\<close>

function class_loop :: "real list \<Rightarrow> int \<Rightarrow> real \<times> int \<Rightarrow> real \<times> int" where
  "class_loop model_output i (max_prob, health_class) =
     (if i < 3 then
        (if model_output ! nat i > max_prob
         then class_loop model_output (i + 1) (model_output ! nat i, i)
         else class_loop model_output (i + 1) (max_prob, health_class))
      else (max_prob, health_class))"
  by pat_completeness auto
termination
  by (relation "measure (\<lambda>(out, i, acc). nat (3 - i))") auto

declare class_loop.simps [simp del]

text \<open>\<open>ml_analyze_plant_health\<close>. The interpreter is outside the repository:
  \<open>tflite_run_inference\<close> maps the 15 inputs to a return code and the three outputs. A null
  pointer is \<open>None\<close>; on an error \<open>result_out\<close> is left as it was.\<close>

definition ml_analyze_plant_health ::
  "(real list \<Rightarrow> int \<times> real list) \<Rightarrow> sensor_data_with_history option \<Rightarrow>
   habitat_data option \<Rightarrow> ml_analysis_result option \<Rightarrow> int + ml_analysis_result" where
  "ml_analyze_plant_health tflite_run_inference sensor_data habitat result_out =
     (case (sensor_data, habitat, result_out) of
        (Some sd, Some hab, Some res) \<Rightarrow>
          (let (ret, model_output) = tflite_run_inference (model_input sd hab)
           in if ret < 0 then Inl ret
              else (let (max_prob, health_class) =
                          class_loop model_output 1 (model_output ! 0, ML_HEALTH_HEALTHY);
                        res1 = res\<lparr>mismatch_temperature := is_temp_mismatch (temperature sd) hab,
                                   mismatch_humidity := is_humidity_mismatch (humidity sd) hab,
                                   mismatch_soil_moisture :=
                                     is_moisture_mismatch (soil_moisture sd) hab,
                                   mismatch_light_level :=
                                     is_light_mismatch (light_level sd) hab,
                                   health_status := health_class,
                                   confidence := max_prob\<rparr>
                    in Inr (generate_recommendations res1)))
      | _ \<Rightarrow> Inl (- EINVAL))"

section \<open>Status text (plant_analysis.c)\<close>

text \<open>\<open>plant_analysis_get_status_string\<close>: \<open>output_str\<close> is the caller's buffer of
  \<open>output_size\<close> bytes, \<open>None\<close> for a null pointer; the buffer is returned as written.\<close>

definition plant_analysis_get_status_string ::
  "ml_analysis_result option \<Rightarrow> string option \<Rightarrow> nat \<Rightarrow> int + string" where
  "plant_analysis_get_status_string result output_str output_size =
     (case (result, output_str) of
        (Some res, Some buf) \<Rightarrow>
          (if output_size = 0 then Inl (- EINVAL)
           else (let buf1 =
                       (if health_status res = ML_HEALTH_CRITICAL
                        then strncpy buf ''Critical'' (output_size - 1)
                        else if health_status res = ML_HEALTH_STRESSED
                        then strncpy buf ''Stressed'' (output_size - 1)
                        else if mismatch_temperature res \<or> mismatch_humidity res \<or>
                                mismatch_soil_moisture res \<or> mismatch_light_level res
                        then strncpy buf ''Adjustment Needed'' (output_size - 1)
                        else strncpy buf ''Healthy'' (output_size - 1))
                 in Inr (buf1[output_size - 1 := NUL])))
      | _ \<Rightarrow> Inl (- EINVAL))"

section \<open>Water consumption analysis (water_analysis.c)\<close>

definition WATER_HISTORY_SIZE :: int where "WATER_HISTORY_SIZE = 168"

text \<open>The pattern structure; the last four fields are its \<open>history\<close> member: the circular
  arrays of moisture values and timestamps, the next write position and the flag set once
  the position has wrapped.\<close>

record water_consumption_pattern =
  daily_consumption_rate :: real
  declining_consumption :: bool
  next_watering_timestamp :: int
  prediction_confidence :: real
  wh_moisture :: "real list"
  wh_timestamps :: "int list"
  wh_index :: int
  wh_filled :: bool

definition water_analysis_init :: "int \<times> water_consumption_pattern" where
  "water_analysis_init =
     (0, \<lparr>daily_consumption_rate = 0, declining_consumption = False,
          next_watering_timestamp = 0, prediction_confidence = 0,
          wh_moisture = replicate (nat WATER_HISTORY_SIZE) 0,
          wh_timestamps = replicate (nat WATER_HISTORY_SIZE) 0,
          wh_index = 0, wh_filled = False\<rparr>)"

definition water_analysis_add_reading ::
  "water_consumption_pattern \<Rightarrow> real \<Rightarrow> int \<Rightarrow> int \<times> water_consumption_pattern" where
  "water_analysis_add_reading wp moisture ts =
     (let i = nat (wh_index wp);
          idx = c_rem (wh_index wp + 1) WATER_HISTORY_SIZE
      in (0, wp\<lparr>wh_moisture := (wh_moisture wp)[i := moisture],
                wh_timestamps := (wh_timestamps wp)[i := ts],
                wh_index := idx,
                wh_filled := (if idx = 0 then True else wh_filled wp)\<rparr>))"

text \<open>The two indices every loop body computes from the loop counter, and the differences
  read at them.\<close>

definition current_idx :: "int \<Rightarrow> int \<Rightarrow> int" where
  "current_idx start_idx i = c_rem (start_idx - i + WATER_HISTORY_SIZE) WATER_HISTORY_SIZE"

definition prev_idx :: "int \<Rightarrow> int \<Rightarrow> int" where
  "prev_idx start_idx i =
     c_rem (current_idx start_idx i - 1 + WATER_HISTORY_SIZE) WATER_HISTORY_SIZE"

definition time_diff :: "water_consumption_pattern \<Rightarrow> int \<Rightarrow> int \<Rightarrow> int" where
  "time_diff wp start_idx i =
     wh_timestamps wp ! nat (current_idx start_idx i) -
     wh_timestamps wp ! nat (prev_idx start_idx i)"

definition moisture_diff :: "water_consumption_pattern \<Rightarrow> int \<Rightarrow> int \<Rightarrow> real" where
  "moisture_diff wp start_idx i =
     wh_moisture wp ! nat (prev_idx start_idx i) -
     wh_moisture wp ! nat (current_idx start_idx i)"

text \<open>The first loop, \<open>for (i = 0; i < usable_samples - 1; i++)\<close>, with its \<open>break\<close>.\<close>

function decline_loop ::
  "water_consumption_pattern \<Rightarrow> int \<Rightarrow> int \<Rightarrow> int \<Rightarrow> real \<times> int \<Rightarrow> real \<times> int" where
  "decline_loop wp start_idx usable_samples i (total_decline, count) =
     (if i < usable_samples - 1 then
        (if time_diff wp start_idx i > 0 \<and> time_diff wp start_idx i < 7200 \<and>
            moisture_diff wp start_idx i > 0
         then decline_loop wp start_idx usable_samples (i + 1)
                (total_decline + moisture_diff wp start_idx i, count + 1)
         else if moisture_diff wp start_idx i < - 5 then (total_decline, count)
         else decline_loop wp start_idx usable_samples (i + 1) (total_decline, count))
      else (total_decline, count))"
  by pat_completeness auto
termination
  by (relation "measure (\<lambda>(wp, s, n, i, acc). nat (n - 1 - i))") auto

declare decline_loop.simps [simp del]

text \<open>The two loops of the comparison of halves, \<open>for (i = 0; i < halfway; i++)\<close> and
  \<open>for (i = halfway; i < count; i++)\<close>: the same body on two accumulators.\<close>

function half_loop ::
  "water_consumption_pattern \<Rightarrow> int \<Rightarrow> int \<Rightarrow> int \<Rightarrow> real \<Rightarrow> real" where
  "half_loop wp start_idx i bound rate =
     (if i < bound then
        half_loop wp start_idx (i + 1) bound
          (if moisture_diff wp start_idx i > 0 then rate + moisture_diff wp start_idx i
           else rate)
      else rate)"
  by pat_completeness auto
termination
  by (relation "measure (\<lambda>(wp, s, i, n, acc). nat (n - i))") auto

declare half_loop.simps [simp del]

text \<open>The loop of the squared deviations, \<open>for (i = 0; i < count; i++)\<close>.\<close>

function variance_loop ::
  "water_consumption_pattern \<Rightarrow> int \<Rightarrow> real \<Rightarrow> int \<Rightarrow> int \<Rightarrow> real \<Rightarrow> real" where
  "variance_loop wp start_idx hourly_decline_rate i count variance_sum =
     (if i < count then
        variance_loop wp start_idx hourly_decline_rate (i + 1) count
          (if moisture_diff wp start_idx i > 0
           then (let deviation = moisture_diff wp start_idx i - hourly_decline_rate
                 in variance_sum + deviation * deviation)
           else variance_sum)
      else variance_sum)"
  by pat_completeness auto
termination
  by (relation "measure (\<lambda>(wp, s, r, i, n, acc). nat (n - i))") auto

declare variance_loop.simps [simp del]

text \<open>The values the function computes before it fills \<open>pattern_out\<close>.\<close>

definition usable_samples :: "water_consumption_pattern \<Rightarrow> int" where
  "usable_samples wp = (if wh_filled wp then WATER_HISTORY_SIZE else wh_index wp)"

definition start_idx :: "water_consumption_pattern \<Rightarrow> int" where
  "start_idx wp = c_rem (wh_index wp + WATER_HISTORY_SIZE - 1) WATER_HISTORY_SIZE"

definition decline_totals :: "water_consumption_pattern \<Rightarrow> real \<times> int" where
  "decline_totals wp = decline_loop wp (start_idx wp) (usable_samples wp) 0 (0, 0)"

definition hourly_decline_rate :: "water_consumption_pattern \<Rightarrow> real" where
  "hourly_decline_rate wp =
     (let (total_decline, count) = decline_totals wp
      in if count > 0 then total_decline / real_of_int count else 0)"

text \<open>The block \<open>if (count >= 48) { ... } else { ... }\<close>: the value assigned to
  \<open>declining_consumption\<close>.\<close>

definition declining :: "water_consumption_pattern \<Rightarrow> bool" where
  "declining wp =
     (let count = snd (decline_totals wp)
      in if count \<ge> 48 then
           (let halfway = c_quot count 2;
                second_half_rate = half_loop wp (start_idx wp) 0 halfway 0;
                first_half_rate = half_loop wp (start_idx wp) halfway count 0;
                second_half_rate' = second_half_rate / real_of_int halfway;
                first_half_rate' = first_half_rate / real_of_int (count - halfway)
            in second_half_rate' < first_half_rate')
         else False)"

text \<open>The confidence of the branch \<open>hours_until_threshold > 0\<close>.\<close>

definition confidence_of :: "water_consumption_pattern \<Rightarrow> real" where
  "confidence_of wp =
     (let count = snd (decline_totals wp);
          data_quantity_factor = min 1 (real_of_int count / 72);
          variance_sum = variance_loop wp (start_idx wp) (hourly_decline_rate wp) 0 count 0;
          variance = (if count > 0 then variance_sum / real_of_int count else 0);
          stddev = sqrt variance;
          consistency_factor =
            (if hourly_decline_rate wp > 0.001
             then min 1 (1 / (1 + 10 * stddev / hourly_decline_rate wp)) else 0)
      in data_quantity_factor * consistency_factor * 100)"

text \<open>\<open>water_analysis_predict_watering\<close>, with the value of \<open>k_uptime_get()\<close> in milliseconds
  as an argument. \<open>pattern_out\<close> is \<open>None\<close> for a null pointer; otherwise the module's pattern
  is copied over it and the copy is filled in.\<close>

definition water_analysis_predict_watering ::
  "water_consumption_pattern \<Rightarrow> int \<Rightarrow> water_consumption_pattern option \<Rightarrow>
   real \<Rightarrow> real \<Rightarrow> int + water_consumption_pattern" where
  "water_analysis_predict_watering wp uptime pattern_out current_moisture moisture_threshold =
     (case pattern_out of
        None \<Rightarrow> Inl (- EINVAL)
      | Some _ \<Rightarrow>
          (if \<not> wh_filled wp \<and> wh_index wp < 48 then
             Inr (wp\<lparr>next_watering_timestamp := 0, prediction_confidence := 0\<rparr>)
           else
             (let out = wp\<lparr>daily_consumption_rate := hourly_decline_rate wp * 24,
                           declining_consumption := declining wp\<rparr>
              in if daily_consumption_rate out > 0.01 then
                   (let hours_until_threshold =
                          (if current_moisture > moisture_threshold
                           then (current_moisture - moisture_threshold) / hourly_decline_rate wp
                           else 0)
                    in if hours_until_threshold > 0 then
                         Inr (out\<lparr>next_watering_timestamp :=
                                     c_quot uptime 1000 + c_trunc (hours_until_threshold * 3600),
                                   prediction_confidence := confidence_of wp\<rparr>)
                       else
                         Inr (out\<lparr>next_watering_timestamp := c_quot uptime 1000,
                                   prediction_confidence := 100\<rparr>))
                 else Inr (out\<lparr>next_watering_timestamp := 0, prediction_confidence := 0\<rparr>))))"

subsection \<open>The comparison of halves in the words of the specification\<close>

text \<open>The positions of the backward walk that contribute a usable difference, in the order
  of the walk (most recent first), up to the first abrupt rise.\<close>

function usable_positions ::
  "water_consumption_pattern \<Rightarrow> int \<Rightarrow> int \<Rightarrow> int \<Rightarrow> int list" where
  "usable_positions wp s n i =
     (if i < n - 1 then
        (if time_diff wp s i > 0 \<and> time_diff wp s i < 7200 \<and> moisture_diff wp s i > 0
         then i # usable_positions wp s n (i + 1)
         else if moisture_diff wp s i < - 5 then []
         else usable_positions wp s n (i + 1))
      else [])"
  by pat_completeness auto
termination
  by (relation "measure (\<lambda>(wp, s, n, i). nat (n - 1 - i))") auto

declare usable_positions.simps [simp del]

text \<open>The usable differences, most recent first, and the mean of a list of them.\<close>

definition usable_diffs :: "water_consumption_pattern \<Rightarrow> real list" where
  "usable_diffs wp =
     map (moisture_diff wp (start_idx wp))
       (usable_positions wp (start_idx wp) (usable_samples wp) 0)"

definition mean :: "real list \<Rightarrow> real" where
  "mean xs = sum_list xs / real (length xs)"

text \<open>The specification's rule: with at least 48 usable differences, the mean of the more
  recent half of them is lower than the mean of the older half.\<close>

definition spec_declining :: "water_consumption_pattern \<Rightarrow> bool" where
  "spec_declining wp =
     (let ds = usable_diffs wp; n = length ds
      in n \<ge> 48 \<and> mean (take (n div 2) ds) < mean (drop (n div 2) ds))"

text \<open>What the code compares: the first \<open>count\<close> positions of the walk, usable or not, split
  at \<open>count / 2\<close>; a position whose difference is not positive counts as zero.\<close>

definition window_diffs :: "water_consumption_pattern \<Rightarrow> real list" where
  "window_diffs wp =
     map (\<lambda>i. max 0 (moisture_diff wp (start_idx wp) (int i)))
       [0..<nat (snd (decline_totals wp))]"

text \<open>A position of the walk is usable when the two samples are less than two hours apart
  and the moisture fell.\<close>

definition usable_pair :: "water_consumption_pattern \<Rightarrow> int \<Rightarrow> int \<Rightarrow> bool" where
  "usable_pair wp s i \<longleftrightarrow>
     time_diff wp s i > 0 \<and> time_diff wp s i < 7200 \<and> moisture_diff wp s i > 0"

section \<open>Sample inputs\<close>

text \<open>A reading to cache, told apart by its timestamp.\<close>

definition sample_args :: "int \<Rightarrow> reading_args" where
  "sample_args t = \<lparr>a_soil_moisture = 40, a_light_level = 60, a_temperature = 22,
     a_humidity = 55, a_air_movement = 10, a_timestamp = t, a_health_status = 0,
     a_env_mismatch = ''none'', a_plant_status = ''Healthy''\<rparr>"

text \<open>The cache after \<open>n\<close> readings with timestamps \<open>0, 1, ...\<close> were added to an
  initialised cache.\<close>

definition cache_after :: "nat \<Rightarrow> data_cache" where
  "cache_after n = foldl enqueue (snd data_cache_init) (map (\<lambda>i. sample_args (int i)) [0..<n])"


text \<open>A sink that refuses exactly the upload made after \<open>n\<close> earlier ones, and a sink that
  accepts every upload.\<close>

definition fail_after :: "nat \<Rightarrow> sink" where
  "fail_after n sent u = (if length sent = n then - 5 else 0)"

definition accept_all :: sink where
  "accept_all sent u = 0"

text \<open>The sensor data after \<open>memset\<close> and with the current values of the specification's
  example, and the habitat ranges of that example (the defaults of
  \<open>plant_analysis_process_reading\<close>).\<close>

definition empty_history :: channel_history where
  "empty_history = \<lparr>h_values = replicate 24 0, h_index = 0, h_filled = False\<rparr>"

definition zero_sensor_data :: sensor_data_with_history where
  "zero_sensor_data = \<lparr>soil_moisture = 0, light_level = 0, temperature = 0, humidity = 0,
     air_movement = 0, timestamp = 0, history = replicate 5 empty_history\<rparr>"

definition sample_sensor_data :: sensor_data_with_history where
  "sample_sensor_data = zero_sensor_data\<lparr>soil_moisture := 40, light_level := 60,
     temperature := 22, humidity := 55, air_movement := 10\<rparr>"

definition sample_habitat :: habitat_data where
  "sample_habitat = \<lparr>plant_id = [], ideal_temperature_min = 18, ideal_temperature_max = 26,
     ideal_humidity_min = 40, ideal_humidity_max = 70,
     ideal_soil_moisture_min = 30, ideal_soil_moisture_max = 70,
     ideal_light_level_min = 30, ideal_light_level_max = 80,
     native_region = [], growing_season = [], data_valid = True, hd_timestamp = 0\<rparr>"

text \<open>A result left by an earlier analysis that found the plant healthy, and an interpreter
  that finds it stressed.\<close>

definition healthy_result :: ml_analysis_result where
  "healthy_result = \<lparr>health_status = 0, confidence = 9 / 10, mismatch_temperature = False,
     mismatch_humidity = False, mismatch_soil_moisture = False, mismatch_light_level = False,
     recommendation = ''Plant is healthy. '' @ replicate 238 NUL\<rparr>"

definition says_stressed :: "real list \<Rightarrow> int \<times> real list" where
  "says_stressed inputs = (0, [1 / 10, 8 / 10, 1 / 10])"

text \<open>The module's pattern after \<open>n < 168\<close> hourly readings \<open>m 0, m 1, \<dots>, m (n - 1)\<close> were
  added to an initialised module, and the calls that produce it.\<close>

definition history_of :: "nat \<Rightarrow> (nat \<Rightarrow> real) \<Rightarrow> water_consumption_pattern" where
  "history_of n m =
     \<lparr>daily_consumption_rate = 0, declining_consumption = False,
      next_watering_timestamp = 0, prediction_confidence = 0,
      wh_moisture = map m [0..<n] @ replicate (168 - n) 0,
      wh_timestamps = map (\<lambda>k. 3600 * int k) [0..<n] @ replicate (168 - n) 0,
      wh_index = int n, wh_filled = False\<rparr>"

definition add_hourly :: "(nat \<Rightarrow> real) \<Rightarrow> water_consumption_pattern \<Rightarrow> nat \<Rightarrow>
    water_consumption_pattern" where
  "add_hourly m wp k = snd (water_analysis_add_reading wp (m k) (3600 * int k))"


definition decline_then_flat :: "nat \<Rightarrow> real" where
  "decline_then_flat k = (if k = 49 then 52 else 100 - real k)"

definition decline_then_watered :: "nat \<Rightarrow> real" where
  "decline_then_watered k = (if k < 45 then 62 - real k else 95 - real k)"

definition spec_example :: "nat \<Rightarrow> real" where
  "spec_example k = [50, 49, 48, 20, 19, 18] ! k"

section \<open>Sequences of readings\<close>

text \<open>One call of \<open>ml_add_sensor_reading\<close>: the uptime in milliseconds and the five values
  (moisture, light, temperature, humidity, air).\<close>

type_synonym tick = "int \<times> real \<times> real \<times> real \<times> real \<times> real"

definition tick_now :: "tick \<Rightarrow> int" where
  "tick_now = (\<lambda>(uptime, sm, ll, t, h, am). c_quot uptime 1000)"

definition tick_values :: "tick \<Rightarrow> real list" where
  "tick_values = (\<lambda>(uptime, sm, ll, t, h, am). [sm, ll, t, h, am])"

text \<open>The call on the module's state: \<open>last_hourly_update\<close> and the sensor data.\<close>

definition record_tick ::
  "int \<times> sensor_data_with_history \<Rightarrow> tick \<Rightarrow> int \<times> sensor_data_with_history" where
  "record_tick = (\<lambda>(l, sd) (uptime, sm, ll, t, h, am).
     case ml_add_sensor_reading l uptime (Some sd) sm ll t h am of
       Inr st \<Rightarrow> st
     | Inl e \<Rightarrow> (l, sd))"

text \<open>Consecutive calls are at least one hour apart.\<close>

fun spaced :: "tick list \<Rightarrow> bool" where
  "spaced (a # b # ws) \<longleftrightarrow> tick_now b - tick_now a \<ge> 3600 \<and> spaced (b # ws)"
| "spaced ws \<longleftrightarrow> True"

text \<open>The populated slots of a channel, oldest first, and what a channel must satisfy.\<close>

definition hist_view :: "channel_history \<Rightarrow> real list" where
  "hist_view h =
     (if h_filled h then rotate (nat (h_index h)) (h_values h)
      else take (nat (h_index h)) (h_values h))"

definition hist_inv :: "channel_history \<Rightarrow> bool" where
  "hist_inv h \<longleftrightarrow> length (h_values h) = 24 \<and> 0 \<le> h_index h \<and> h_index h < 24"

section \<open>Verification of the telemetry cache\<close>

lemma c_rem_nonneg: "0 \<le> a \<Longrightarrow> 0 < b \<Longrightarrow> c_rem a b = a mod b"
  by (cases "a = 0") (simp_all add: c_rem_def)

lemma terminated_copy:
  "length dst = 32 \<Longrightarrow>
   (strncpy dst src 31)[31 := NUL] = take 31 (c_str src @ replicate 31 NUL) @ [NUL]"
proof -
  assume len: "length dst = 32"
  let ?p = "take 31 (c_str src @ replicate 31 NUL)"
  have lp: "length ?p = 31" by (simp add: min_def)
  have "length (drop 31 dst) = Suc 0" using len by simp
  then obtain c where d: "drop 31 dst = [c]"
    by (metis length_Suc_conv length_0_conv)
  have upd: "(p @ [c])[31 := NUL] = p @ [NUL]" if "length p = 31" for p :: string
    using that by (simp add: list_update_append)
  have "(?p @ [c])[31 := NUL] = ?p @ [NUL]"
    using lp by (rule upd)
  then show ?thesis by (simp add: strncpy_def d)
qed

lemma write_slot_stored:
  "length (cr_env_mismatch old) = 32 \<Longrightarrow> length (cr_plant_status old) = 32 \<Longrightarrow>
   write_slot old a = stored a"
  by (simp add: stored_def write_slot_def terminated_copy zero_reading_def)

lemma stored_valid: "cr_valid (stored a)"
  by (simp add: stored_def write_slot_def)

lemma stored_lengths:
  "length (cr_env_mismatch (stored a)) = 32 \<and> length (cr_plant_status (stored a)) = 32"
  by (simp add: stored_def write_slot_def zero_reading_def strncpy_def min_def)

lemma enqueue_eq:
  assumes "cache_inv dc"
  shows "enqueue dc a =
    \<lparr>cache = (cache dc)[nat (cache_head dc) := stored a],
     cache_head = (cache_head dc + 1) mod 48,
     cache_count = (if cache_count dc < 48 then cache_count dc + 1 else 48)\<rparr>"
  using assms
  by (auto simp add: enqueue_def data_cache_add_reading_def cache_inv_def Let_def
      MAX_CACHED_ENTRIES_def c_rem_nonneg write_slot_stored)

lemma cache_inv_init: "cache_inv (snd data_cache_init)"
  by (simp add: cache_inv_def data_cache_init_def MAX_CACHED_ENTRIES_def zero_reading_def)


lemma cache_inv_enqueue:
  assumes "cache_inv dc"
  shows "cache_inv (enqueue dc a)"
proof -
  note e = enqueue_eq [OF assms, of a]
  from assms have len: "length (cache dc) = 48"
    and h: "0 \<le> cache_head dc" "cache_head dc < 48"
    and c: "0 \<le> cache_count dc" "cache_count dc \<le> 48"
    and hc: "cache_count dc < 48 \<Longrightarrow> cache_head dc = cache_count dc"
    and v: "\<And>j. j < nat (cache_count dc) \<Longrightarrow> cr_valid (cache dc ! j)"
    and l: "\<And>j. j < 48 \<Longrightarrow> length (cr_env_mismatch (cache dc ! j)) = 32 \<and>
               length (cr_plant_status (cache dc ! j)) = 32"
    by (auto simp: cache_inv_def MAX_CACHED_ENTRIES_def)
  show ?thesis
  proof (cases "cache_count dc < 48")
    case True
    then have hh: "cache_head dc = cache_count dc" by (rule hc)
    have m: "(cache_count dc + 1) mod 48 = (if cache_count dc + 1 < 48 then cache_count dc + 1 else 0)"
      using True c by (cases "cache_count dc = 47") auto
    show ?thesis
      unfolding e cache_inv_def MAX_CACHED_ENTRIES_def using True c len v l stored_valid stored_lengths
      by (auto simp: hh m nth_list_update nat_add_distrib)
  next
    case False
    then have "cache_count dc = 48" using c by simp
    then show ?thesis
      unfolding e cache_inv_def MAX_CACHED_ENTRIES_def using h len v l stored_valid stored_lengths
      by (auto simp: nth_list_update)
  qed
qed


lemma logical_enqueue:
  assumes "cache_inv dc"
  shows "logical (enqueue dc a) =
    (if cache_count dc < 48 then logical dc @ [stored a] else tl (logical dc) @ [stored a])"
proof -
  note e = enqueue_eq [OF assms, of a]
  from assms have len: "length (cache dc) = 48"
    and h: "0 \<le> cache_head dc" "cache_head dc < 48"
    and c: "0 \<le> cache_count dc" "cache_count dc \<le> 48"
    and hc: "cache_count dc < 48 \<Longrightarrow> cache_head dc = cache_count dc"
    by (auto simp: cache_inv_def MAX_CACHED_ENTRIES_def)
  define n where "n = nat (cache_head dc)"
  define xs where "xs = cache dc"
  have n: "n < 48" and hn: "cache_head dc = int n" using h by (auto simp: n_def)
  have lx: "length xs = 48" using len by (simp add: xs_def)
  have slots: "cache (enqueue dc a) = xs[n := stored a]"
    by (simp add: e n_def xs_def)
  have tk: "take (Suc n) (xs[n := stored a]) = take n xs @ [stored a]"
    using n lx by (simp add: take_Suc_conv_app_nth)
  have all: "xs[n := stored a] = take n xs @ [stored a]" if "n = 47"
    using tk lx that by simp
  show ?thesis
  proof (cases "cache_count dc < 48")
    case True
    then have hh: "cache_count dc = int n" using hc hn by simp
    have old: "logical dc = take n xs"
      using True by (simp add: logical_def MAX_CACHED_ENTRIES_def hh xs_def)
    show ?thesis
    proof (cases "n = 47")
      case True
      have "cache_count (enqueue dc a) = 48" "cache_head (enqueue dc a) = 0"
        by (simp_all add: e hh hn True)
      then have "logical (enqueue dc a) = xs[n := stored a]"
        by (simp add: logical_def MAX_CACHED_ENTRIES_def slots)
      then show ?thesis using \<open>cache_count dc < 48\<close> all [OF True] by (simp add: old)
    next
      case False
      then have "Suc n < 48" using n by simp
      then have "cache_count (enqueue dc a) = int (Suc n)"
        by (simp add: e hh)
      then have "cache_count (enqueue dc a) < 48" "nat (cache_count (enqueue dc a)) = Suc n"
        using \<open>Suc n < 48\<close> by simp_all
      then have "logical (enqueue dc a) = take (Suc n) (xs[n := stored a])"
        by (simp only: logical_def MAX_CACHED_ENTRIES_def slots if_True)
      then show ?thesis using \<open>cache_count dc < 48\<close> by (simp only: tk old if_True)
    qed
  next
    case False
    then have full: "cache_count dc = 48" using c by simp
    have old: "logical dc = drop n xs @ take n xs"
      using lx n by (simp add: logical_def MAX_CACHED_ENTRIES_def full n_def xs_def rotate_drop_take)
    have dn: "drop n xs = xs ! n # drop (Suc n) xs"
      using lx n by (simp add: Cons_nth_drop_Suc)
    have tlold: "tl (logical dc) = drop (Suc n) xs @ take n xs"
      by (simp add: old dn)
    have cnt: "cache_count (enqueue dc a) = 48" by (simp add: e full)
    show ?thesis
    proof (cases "n = 47")
      case True
      have "cache_head (enqueue dc a) = 0" by (simp add: e hn True)
      then have "logical (enqueue dc a) = xs[n := stored a]"
        by (simp add: logical_def MAX_CACHED_ENTRIES_def slots cnt)
      moreover have "drop (Suc n) xs = []" using lx True by simp
      ultimately show ?thesis using \<open>\<not> cache_count dc < 48\<close> all [OF True] by (simp add: tlold)
    next
      case False
      then have sn: "Suc n < 48" using n by simp
      then have "cache_head (enqueue dc a) = int (Suc n)" by (simp add: e hn)
      then have "nat (cache_head (enqueue dc a)) = Suc n" by simp
      then have "logical (enqueue dc a) = rotate (Suc n) (xs[n := stored a])"
        by (simp add: logical_def MAX_CACHED_ENTRIES_def slots cnt del: rotate_Suc)
      also have "\<dots> = drop (Suc n) (xs[n := stored a]) @ take (Suc n) (xs[n := stored a])"
        using lx sn by (simp add: rotate_drop_take del: rotate_Suc)
      also have "\<dots> = drop (Suc n) xs @ take n xs @ [stored a]"
        by (simp only: tk drop_update_cancel [of n "Suc n"] lessI)
      finally show ?thesis using \<open>\<not> cache_count dc < 48\<close> by (simp add: tlold)
    qed
  qed
qed

lemma get_logical:
  assumes "cache_inv dc" "0 \<le> i" "i < cache_count dc"
  shows "data_cache_get_reading dc i (Some out) = Inr (logical dc ! nat i)"
proof -
  from assms have len: "length (cache dc) = 48"
    and h: "0 \<le> cache_head dc" "cache_head dc < 48"
    and c: "0 \<le> cache_count dc" "cache_count dc \<le> 48"
    and v: "\<And>j. j < nat (cache_count dc) \<Longrightarrow> cr_valid (cache dc ! j)"
    by (auto simp: cache_inv_def MAX_CACHED_ENTRIES_def)
  show ?thesis
  proof (cases "cache_count dc < 48")
    case True
    have "cr_valid (cache dc ! nat i)" using assms by (intro v) simp
    then show ?thesis using True assms
      by (simp add: data_cache_get_reading_def logical_def MAX_CACHED_ENTRIES_def)
  next
    case False
    then have full: "cache_count dc = 48" using c by simp
    have r: "c_rem (cache_head dc + i) 48 = (cache_head dc + i) mod 48"
      using h assms by (simp add: c_rem_nonneg)
    have idx: "nat ((cache_head dc + i) mod 48) = (nat (cache_head dc) + nat i) mod 48"
      using h assms by (simp add: nat_mod_distrib nat_add_distrib)
    have "(nat (cache_head dc) + nat i) mod 48 < nat (cache_count dc)"
      by (simp add: full)
    then have "cr_valid (cache dc ! ((nat (cache_head dc) + nat i) mod 48))" by (rule v)
    moreover have "rotate (nat (cache_head dc)) (cache dc) ! nat i =
        cache dc ! ((nat (cache_head dc) + nat i) mod 48)"
      using len assms full by (simp add: nth_rotate)
    ultimately show ?thesis using assms
      by (simp add: data_cache_get_reading_def logical_def MAX_CACHED_ENTRIES_def full r idx)
  qed
qed

lemma count_enqueue:
  "cache_inv dc \<Longrightarrow>
   cache_count (enqueue dc a) = (if cache_count dc < 48 then cache_count dc + 1 else 48)"
  by (simp add: enqueue_eq)

lemma length_logical: "cache_inv dc \<Longrightarrow> length (logical dc) = nat (cache_count dc)"
  by (auto simp: logical_def cache_inv_def MAX_CACHED_ENTRIES_def)

lemma enqueue_all_inv: "cache_inv dc \<Longrightarrow> cache_inv (foldl enqueue dc as)"
  by (induction as arbitrary: dc) (simp_all add: cache_inv_enqueue)

lemma enqueue_all_from_init:
  "cache_count (foldl enqueue (snd data_cache_init) as) = int (min (length as) 48) \<and>
   logical (foldl enqueue (snd data_cache_init) as) = map stored (drop (length as - 48) as)"
proof (induction as rule: rev_induct)
  case Nil
  show ?case
    by (simp add: data_cache_init_def logical_def MAX_CACHED_ENTRIES_def)
next
  case (snoc a as)
  let ?dc = "foldl enqueue (snd data_cache_init) as"
  have inv: "cache_inv ?dc" by (rule enqueue_all_inv [OF cache_inv_init])
  show ?case
  proof (cases "length as < 48")
    case True
    with snoc inv show ?thesis
      by (simp add: count_enqueue logical_enqueue min_def)
  next
    case False
    then have d: "Suc (length as) - 48 = Suc (length as - 48)"
      and d': "length as - 47 = Suc (length as - 48)" by simp_all
    have "tl (map stored (drop (length as - 48) as)) = map stored (drop (Suc (length as - 48)) as)"
      by (simp add: drop_Suc tl_drop flip: map_tl)
    with snoc inv False show ?thesis
      by (simp add: count_enqueue logical_enqueue min_def d d')
  qed
qed

lemma c_str_no_NUL: "NUL \<notin> set (c_str s)"
  unfolding c_str_def by (auto dest: set_takeWhileD)

lemma c_str_id: "NUL \<notin> set s \<Longrightarrow> c_str s = s"
  unfolding c_str_def by (induction s) auto

lemma length_take_padded: "length (take m (xs @ replicate m c)) = m"
  by (simp del: take_append add: min_def)

lemma c_str_padded:
  assumes "NUL \<notin> set s"
  shows "c_str (take m (s @ replicate m NUL) @ [NUL]) = take m s"
proof -
  have t: "take m (s @ replicate m NUL) = take m s @ replicate (m - length s) NUL"
    by simp
  have rest: "takeWhile (\<lambda>c. c \<noteq> NUL) (replicate k NUL @ [NUL]) = []" for k
    by (cases k) simp_all
  have "\<forall>x \<in> set (take m s). x \<noteq> NUL"
    using assms by (auto dest: in_set_takeD)
  then have "takeWhile (\<lambda>c. c \<noteq> NUL) (take m s @ (replicate (m - length s) NUL @ [NUL])) =
      take m s @ takeWhile (\<lambda>c. c \<noteq> NUL) (replicate (m - length s) NUL @ [NUL])"
    by (intro takeWhile_append2) auto
  then show ?thesis
    unfolding c_str_def t by (simp add: rest)
qed

lemma stored_plant_status:
  "c_str (cr_plant_status (stored a)) = take 31 (c_str (a_plant_status a))"
proof -
  have "cr_plant_status (stored a) =
      take 31 (c_str (a_plant_status a) @ replicate 31 NUL) @ [NUL]"
    using terminated_copy [of "replicate 32 NUL" "a_plant_status a"]
    by (simp add: stored_def write_slot_def zero_reading_def)
  then show ?thesis
    using c_str_padded [OF c_str_no_NUL, of 31 "a_plant_status a"] by simp
qed











lemma cache_after_inv: "cache_inv (cache_after n)"
  unfolding cache_after_def by (rule enqueue_all_inv [OF cache_inv_init])

lemma cache_after_count: "cache_count (cache_after n) = int (min n 48)"
  unfolding cache_after_def using enqueue_all_from_init [of "map (\<lambda>i. sample_args (int i)) [0..<n]"]
  by simp



section \<open>Verification of the upload of cached readings\<close>

lemma first_failure_None_iff:
  "first_failure snk sent us = None \<longleftrightarrow>
   (\<forall>i<length us. 0 \<le> snk (sent @ take i us) (us ! i))"
proof (induction us arbitrary: sent)
  case Nil
  show ?case by simp
next
  case (Cons u us)
  have "(\<forall>i<length (u # us). 0 \<le> snk (sent @ take i (u # us)) ((u # us) ! i)) \<longleftrightarrow>
        0 \<le> snk sent u \<and> (\<forall>i<length us. 0 \<le> snk ((sent @ [u]) @ take i us) (us ! i))"
    by (auto simp: All_less_Suc2)
  then show ?case using Cons.IH [of "sent @ [u]"] by auto
qed

lemma first_failure_Some_iff:
  "first_failure snk sent us = Some j \<longleftrightarrow>
   j < length us \<and> snk (sent @ take j us) (us ! j) < 0 \<and>
   (\<forall>i<j. 0 \<le> snk (sent @ take i us) (us ! i))"
proof (induction us arbitrary: sent j)
  case Nil
  show ?case by simp
next
  case (Cons u us)
  show ?case
  proof (cases j)
    case 0
    then show ?thesis by auto
  next
    case (Suc j')
    have "(\<forall>i<Suc j'. 0 \<le> snk (sent @ take i (u # us)) ((u # us) ! i)) \<longleftrightarrow>
          0 \<le> snk sent u \<and> (\<forall>i<j'. 0 \<le> snk ((sent @ [u]) @ take i us) (us ! i))"
      by (auto simp: All_less_Suc2)
    then show ?thesis using Cons.IH [of "sent @ [u]" j'] Suc by auto
  qed
qed

lemma attempted_Nil: "attempted snk sent [] = []"
  by (simp add: attempted_def)

lemma attempted_Cons:
  "attempted snk sent (u # us) =
     (if snk sent u < 0 then [u] else u # attempted snk (sent @ [u]) us)"
  by (simp add: attempted_def split: option.splits)

lemma length_cached_uploads:
  "cache_inv dc \<Longrightarrow> length (cached_uploads dc r) = nat (cache_count dc)"
  by (simp add: cached_uploads_def length_logical)

lemma send_cached_from:
  assumes inv: "cache_inv dc"
  shows "0 \<le> i \<Longrightarrow> i \<le> cache_count dc \<Longrightarrow>
    send_cached snk dc r (cache_count dc) i sent =
      (first_failure snk sent (drop (nat i) (cached_uploads dc r)) = None,
       sent @ attempted snk sent (drop (nat i) (cached_uploads dc r)))"
proof (induction "nat (cache_count dc - i)" arbitrary: i sent)
  case 0
  then have "i = cache_count dc" by simp
  then show ?case
    using length_cached_uploads [OF inv, of r]
    by (simp add: send_cached.simps [of snk dc r "cache_count dc" "cache_count dc"] attempted_Nil)
next
  case (Suc k)
  let ?ups = "cached_uploads dc r"
  let ?u = "(args_of (logical dc ! nat i), r)"
  from Suc.hyps(2) Suc.prems have lt: "i < cache_count dc" by simp
  have g: "data_cache_get_reading dc i (Some zero_reading) = Inr (logical dc ! nat i)"
    using get_logical [OF inv Suc.prems(1) lt] .
  have ni: "nat i < length ?ups"
    using lt Suc.prems length_cached_uploads [OF inv, of r] by simp
  have nth: "?ups ! nat i = ?u"
    using ni by (simp add: cached_uploads_def)
  have dr: "drop (nat i) ?ups = ?u # drop (nat (i + 1)) ?ups"
    using ni Suc.prems Cons_nth_drop_Suc [OF ni] by (simp add: nth nat_add_distrib)
  have ih: "send_cached snk dc r (cache_count dc) (i + 1) (sent @ [?u]) =
      (first_failure snk (sent @ [?u]) (drop (nat (i + 1)) ?ups) = None,
       (sent @ [?u]) @ attempted snk (sent @ [?u]) (drop (nat (i + 1)) ?ups))"
    using Suc.hyps(2) Suc.prems lt by (intro Suc.hyps(1)) simp_all
  show ?case
    unfolding dr
    by (subst send_cached.simps)
       (simp add: lt g firebase_send_sensor_data_def ih attempted_Cons)
qed

lemma send_when_connected_eq:
  assumes inv: "cache_inv dc" and pos: "0 < cache_count dc"
  shows "send_when_connected snk wr sn r cur (dc, st, sent) =
    (case first_failure snk sent (cached_uploads dc r) of
       None \<Rightarrow>
         (snk (sent @ cached_uploads dc r) (cur, r),
          snd (data_cache_clear dc),
          snd (data_cache_save wr st sn (snd (data_cache_clear dc))),
          sent @ cached_uploads dc r @ [(cur, r)])
     | Some j \<Rightarrow>
         (snk (sent @ take (Suc j) (cached_uploads dc r)) (cur, r), dc, st,
          sent @ take (Suc j) (cached_uploads dc r) @ [(cur, r)]))"
proof -
  have sc: "send_cached snk dc r (cache_count dc) 0 sent =
      (first_failure snk sent (cached_uploads dc r) = None,
       sent @ attempted snk sent (cached_uploads dc r))"
    using send_cached_from [OF inv, of 0 snk r sent] pos by simp
  show ?thesis
    using pos
    by (simp add: send_when_connected_def data_cache_count_def sc
        firebase_send_sensor_data_def attempted_def Let_def split: option.splits)
qed

text \<open>
  C1 (as amended). For a cache that satisfies its invariant and holds \<open>n > 0\<close> entries, and
  for every sink: the uploads are the cached entries in the order of \<open>get(0), get(1), \<dots>\<close>,
  oldest first. If the upload of entry \<open>j\<close> is the first that fails, entries \<open>0 \<dots> j\<close> were
  attempted and no later one, and the cache and the flash store are exactly as before. The
  cache is cleared and the empty state saved exactly when the upload of every cached
  entry succeeds; the live reading is uploaded after that in either case, and its outcome
  changes nothing of the cache. Run again on the unchanged cache with a sink that never
  fails, all \<open>n\<close> entries are uploaded and the cache is cleared.
\<close>

theorem drain_stops_at_first_failure:
  assumes inv: "cache_inv dc" and pos: "0 < data_cache_count dc"
    and ups: "ups = cached_uploads dc r"
  shows
   "length ups = nat (data_cache_count dc) \<and>
    (\<forall>i<length ups. \<exists>e. data_cache_get_reading dc (int i) (Some out) = Inr e \<and>
                          ups ! i = (args_of e, r)) \<and>
    (\<forall>j. j < length ups \<and> (\<forall>i<j. 0 \<le> snk (sent @ take i ups) (ups ! i)) \<and>
          snk (sent @ take j ups) (ups ! j) < 0 \<longrightarrow>
       send_when_connected snk wr sn r cur (dc, st, sent) =
         (snk (sent @ take (Suc j) ups) (cur, r), dc, st,
          sent @ take (Suc j) ups @ [(cur, r)])) \<and>
    ((\<forall>i<length ups. 0 \<le> snk (sent @ take i ups) (ups ! i)) \<longrightarrow>
       send_when_connected snk wr sn r cur (dc, st, sent) =
         (snk (sent @ ups) (cur, r), snd (data_cache_clear dc),
          snd (data_cache_save wr st sn (snd (data_cache_clear dc))),
          sent @ ups @ [(cur, r)])) \<and>
    data_cache_count (snd (data_cache_clear dc)) = 0 \<and>
    ((\<forall>l u. 0 \<le> ok l u) \<longrightarrow>
       send_when_connected ok wr sn r' cur' (dc, st, sent') =
         (ok (sent' @ cached_uploads dc r') (cur', r'), snd (data_cache_clear dc),
          snd (data_cache_save wr st sn (snd (data_cache_clear dc))),
          sent' @ cached_uploads dc r' @ [(cur', r')]))"
proof (intro conjI allI impI)
  from pos have pos': "0 < cache_count dc" by (simp add: data_cache_count_def)
  show len: "length ups = nat (data_cache_count dc)"
    by (simp add: ups length_cached_uploads [OF inv] data_cache_count_def)
  show "data_cache_count (snd (data_cache_clear dc)) = 0"
    by (simp add: data_cache_clear_def data_cache_count_def)
  {
    fix i assume i: "i < length ups"
    then have "int i < cache_count dc" using len by (simp add: data_cache_count_def)
    then have "data_cache_get_reading dc (int i) (Some out) = Inr (logical dc ! i)"
      using get_logical [OF inv, of "int i" out] by simp
    moreover have "ups ! i = (args_of (logical dc ! i), r)"
      using i by (simp add: ups cached_uploads_def)
    ultimately show "\<exists>e. data_cache_get_reading dc (int i) (Some out) = Inr e \<and>
                          ups ! i = (args_of e, r)" by blast
  }
  {
    fix j
    assume "j < length ups \<and> (\<forall>i<j. 0 \<le> snk (sent @ take i ups) (ups ! i)) \<and>
          snk (sent @ take j ups) (ups ! j) < 0"
    then have "first_failure snk sent (cached_uploads dc r) = Some j"
      by (simp add: first_failure_Some_iff ups)
    then show "send_when_connected snk wr sn r cur (dc, st, sent) =
         (snk (sent @ take (Suc j) ups) (cur, r), dc, st,
          sent @ take (Suc j) ups @ [(cur, r)])"
      by (simp add: send_when_connected_eq [OF inv pos'] ups)
  }
  {
    assume "\<forall>i<length ups. 0 \<le> snk (sent @ take i ups) (ups ! i)"
    then have "first_failure snk sent (cached_uploads dc r) = None"
      by (simp add: first_failure_None_iff ups)
    then show "send_when_connected snk wr sn r cur (dc, st, sent) =
         (snk (sent @ ups) (cur, r), snd (data_cache_clear dc),
          snd (data_cache_save wr st sn (snd (data_cache_clear dc))),
          sent @ ups @ [(cur, r)])"
      by (simp add: send_when_connected_eq [OF inv pos'] ups)
  }
  {
    assume "\<forall>l u. 0 \<le> ok l u"
    then have "first_failure ok sent' (cached_uploads dc r') = None"
      unfolding first_failure_None_iff by blast
    then show "send_when_connected ok wr sn r' cur' (dc, st, sent') =
         (ok (sent' @ cached_uploads dc r') (cur', r'), snd (data_cache_clear dc),
          snd (data_cache_save wr st sn (snd (data_cache_clear dc))),
          sent' @ cached_uploads dc r' @ [(cur', r')])"
      by (simp add: send_when_connected_eq [OF inv pos'])
  }
qed

theorem drain_stops_at_first_failure_witness:
  "let r = ''Plant is healthy. ''; ups = cached_uploads (cache_after 5) r;
       after_failure = take 3 ups @ [(sample_args 9, r)]
   in data_cache_count (cache_after 5) = 5 \<and> length ups = 5 \<and>
      send_when_connected (fail_after 2) (\<lambda>key. 0) ''SN01'' r (sample_args 9)
          (cache_after 5, Map.empty, []) =
        (0, cache_after 5, Map.empty, after_failure) \<and>
      send_when_connected accept_all (\<lambda>key. 0) ''SN01'' r (sample_args 10)
          (cache_after 5, Map.empty, after_failure) =
        (0, snd (data_cache_clear (cache_after 5)),
         snd (data_cache_save (\<lambda>key. 0) Map.empty ''SN01'' (snd (data_cache_clear (cache_after 5)))),
         after_failure @ ups @ [(sample_args 10, r)])"
proof -
  define r where "r = ''Plant is healthy. ''"
  define ups where "ups = cached_uploads (cache_after 5) r"
  define after_failure where "after_failure = take 3 ups @ [(sample_args 9, r)]"
  have cnt: "data_cache_count (cache_after 5) = 5"
    by (simp add: data_cache_count_def cache_after_count)
  then have pos: "0 < data_cache_count (cache_after 5)" by simp
  note T = drain_stops_at_first_failure [OF cache_after_inv pos ups_def,
      where snk = "fail_after 2" and sent = "[]" and wr = "\<lambda>key. 0" and sn = "''SN01''"
        and cur = "sample_args 9" and st = Map.empty and ok = accept_all
        and r' = r and cur' = "sample_args 10" and sent' = after_failure and out = zero_reading]
  have len: "length ups = 5" using T [THEN conjunct1] cnt by simp
  note at_failure = T [THEN conjunct2, THEN conjunct2, THEN conjunct1, THEN spec, of 2, THEN mp]
  note rerun = T [THEN conjunct2, THEN conjunct2, THEN conjunct2, THEN conjunct2,
      THEN conjunct2, THEN mp]
  have third: "2 < length ups \<and> (\<forall>i<2. 0 \<le> fail_after 2 ([] @ take i ups) (ups ! i)) \<and>
          fail_after 2 ([] @ take 2 ups) (ups ! 2) < 0"
    by (simp add: len fail_after_def)
  have ok: "\<forall>l u. 0 \<le> accept_all l u" by (simp add: accept_all_def)
  have first: "send_when_connected (fail_after 2) (\<lambda>key. 0) ''SN01'' r (sample_args 9)
          (cache_after 5, Map.empty, []) = (0, cache_after 5, Map.empty, after_failure)"
    using at_failure [OF third] by (simp add: fail_after_def len after_failure_def numeral_3_eq_3)
  have again: "send_when_connected accept_all (\<lambda>key. 0) ''SN01'' r (sample_args 10)
          (cache_after 5, Map.empty, after_failure) =
        (0, snd (data_cache_clear (cache_after 5)),
         snd (data_cache_save (\<lambda>key. 0) Map.empty ''SN01'' (snd (data_cache_clear (cache_after 5)))),
         after_failure @ ups @ [(sample_args 10, r)])"
    using rerun [OF ok] by (simp add: accept_all_def ups_def)
  show ?thesis
    using cnt len first again
    by (simp only: Let_def r_def [symmetric] ups_def [symmetric] after_failure_def [symmetric])
qed

text \<open>
  The claim as stated fails: with one cached entry and a sink that accepts it and then
  refuses the live reading, the upload of the live reading fails and yet the cache is
  cleared and the empty state is saved.
\<close>

theorem drain_clears_before_live_upload:
  "let res = send_when_connected (fail_after 1) (\<lambda>key. 0) ''SN01'' ''Plant is healthy. ''
               (sample_args 9) (cache_after 1, Map.empty, [])
   in data_cache_count (cache_after 1) = 1 \<and>
      fst res < 0 \<and>
      data_cache_count (fst (snd res)) = 0 \<and>
      fst (snd (snd res)) ''cache/meta/SN01'' = Some (CacheMeta 0 0)"
proof -
  define r where "r = ''Plant is healthy. ''"
  define ups where "ups = cached_uploads (cache_after 1) r"
  have cnt: "cache_count (cache_after 1) = 1" by (simp add: cache_after_count)
  have len: "length ups = 1"
    using length_cached_uploads [OF cache_after_inv, of 1 r] cnt by (simp add: ups_def)
  then obtain u where u: "ups = [u]"
    by (cases ups) auto
  have ff: "first_failure (fail_after 1) [] ups = None"
    by (simp add: u fail_after_def)
  have "send_when_connected (fail_after 1) (\<lambda>key. 0) ''SN01'' r (sample_args 9)
          (cache_after 1, Map.empty, []) =
        (fail_after 1 ([] @ ups) (sample_args 9, r), snd (data_cache_clear (cache_after 1)),
         snd (data_cache_save (\<lambda>key. 0) Map.empty ''SN01'' (snd (data_cache_clear (cache_after 1)))),
         [] @ ups @ [(sample_args 9, r)])"
    using send_when_connected_eq [OF cache_after_inv, of 1 "fail_after 1" "\<lambda>key. 0" "''SN01''" r
        "sample_args 9" Map.empty "[]"] cnt ff
    by (simp add: ups_def)
  then show ?thesis
    using cnt unfolding r_def [symmetric]
    by (simp add: Let_def data_cache_count_def u fail_after_def data_cache_clear_def
        data_cache_save_def storage_save_value_def)
qed

section \<open>Verification of the status text\<close>

lemma strncpy_terminated:
  assumes "length buf = n" "0 < n"
  shows "(strncpy buf src (n - 1))[n - 1 := NUL] =
         take (n - 1) (c_str src @ replicate (n - 1) NUL) @ [NUL]"
proof -
  let ?p = "take (n - 1) (c_str src @ replicate (n - 1) NUL)"
  have lp: "length ?p = n - 1" by (rule length_take_padded)
  have "length (drop (n - 1) buf) = Suc 0" using assms by simp
  then obtain c where d: "drop (n - 1) buf = [c]"
    by (metis length_Suc_conv length_0_conv)
  have upd: "(p @ [c])[k := NUL] = p @ [NUL]" if "length p = k" for p :: string and k
    using that by (simp add: list_update_append)
  have "(?p @ [c])[n - 1 := NUL] = ?p @ [NUL]"
    using lp by (rule upd)
  then show ?thesis unfolding strncpy_def d .
qed

lemma status_copy:
  assumes "length buf = n" "0 < n" "NUL \<notin> set lit"
  shows "length ((strncpy buf lit (n - 1))[n - 1 := NUL]) = n"
    and "(strncpy buf lit (n - 1))[n - 1 := NUL] ! (n - 1) = NUL"
    and "c_str ((strncpy buf lit (n - 1))[n - 1 := NUL]) = take (n - 1) lit"
proof -
  note s = strncpy_terminated [OF assms(1,2), of lit]
  have lp: "length (take (n - 1) (c_str lit @ replicate (n - 1) NUL)) = n - 1"
    by (rule length_take_padded)
  show "length ((strncpy buf lit (n - 1))[n - 1 := NUL]) = n"
    using assms(2) lp unfolding s by (simp del: take_append)
  show "(strncpy buf lit (n - 1))[n - 1 := NUL] ! (n - 1) = NUL"
    unfolding s using lp by (simp add: nth_append del: take_append)
  show "c_str ((strncpy buf lit (n - 1))[n - 1 := NUL]) = take (n - 1) lit"
    unfolding s using c_str_padded [of "c_str lit" "n - 1"] c_str_no_NUL [of lit]
    by (simp add: c_str_id [OF assms(3)])
qed

text \<open>
  C10. \<open>plant_analysis_get_status_string\<close> returns \<open>-EINVAL\<close> for a null result, a null
  buffer or a size of zero. Otherwise it succeeds, the last byte of the buffer is the
  terminator, and the buffer holds the first \<open>output_size - 1\<close> bytes of "Critical" for a
  critical status, of "Stressed" for a stressed one, and for any other status of
  "Adjustment Needed" if a mismatch flag is set and of "Healthy" if none is. With the 32-byte
  buffer of the caller the text is whole, and it is whole in the cached entry that
  \<open>data_cache_add_reading\<close> stores from it.
\<close>

theorem status_string_cases:
  assumes "length buf = output_size" and "0 < output_size"
    and "phrase =
      (if health_status res = ML_HEALTH_CRITICAL then ''Critical''
       else if health_status res = ML_HEALTH_STRESSED then ''Stressed''
       else if mismatch_temperature res \<or> mismatch_humidity res \<or>
               mismatch_soil_moisture res \<or> mismatch_light_level res
       then ''Adjustment Needed'' else ''Healthy'')"
  shows
    "plant_analysis_get_status_string None (Some buf) output_size = Inl (- EINVAL) \<and>
     plant_analysis_get_status_string (Some res) None output_size = Inl (- EINVAL) \<and>
     plant_analysis_get_status_string (Some res) (Some buf) 0 = Inl (- EINVAL) \<and>
     (\<exists>out. plant_analysis_get_status_string (Some res) (Some buf) output_size = Inr out \<and>
        length out = output_size \<and> out ! (output_size - 1) = NUL \<and>
        c_str out = take (output_size - 1) phrase \<and>
        (output_size = 32 \<longrightarrow>
           c_str out = phrase \<and>
           c_str (cr_plant_status (stored (a\<lparr>a_plant_status := out\<rparr>))) = phrase))"
proof -
  have nonul: "NUL \<notin> set phrase" and short: "length phrase \<le> 17"
    unfolding assms(3) by simp_all
  define out where "out = (strncpy buf phrase (output_size - 1))[output_size - 1 := NUL]"
  have run: "plant_analysis_get_status_string (Some res) (Some buf) output_size = Inr out"
    using assms(2) unfolding out_def assms(3)
    by (simp add: plant_analysis_get_status_string_def)
  note c = status_copy [OF assms(1,2) nonul, folded out_def]
  have whole: "c_str out = phrase \<and>
      c_str (cr_plant_status (stored (a\<lparr>a_plant_status := out\<rparr>))) = phrase"
    if "output_size = 32"
    using c(3) short that by (simp add: stored_plant_status)
  show ?thesis
    using run c whole by (simp add: plant_analysis_get_status_string_def)
qed

theorem status_string_cases_witness:
  "\<exists>out. plant_analysis_get_status_string
       (Some \<lparr>health_status = 0, confidence = 0.9, mismatch_temperature = False,
              mismatch_humidity = True, mismatch_soil_moisture = False,
              mismatch_light_level = False, recommendation = replicate 256 NUL\<rparr>)
       (Some (replicate 32 CHR ''x'')) 32 = Inr out \<and>
     length out = 32 \<and> out ! 31 = NUL \<and> c_str out = ''Adjustment Needed'' \<and>
     c_str (cr_plant_status (stored ((sample_args 0)\<lparr>a_plant_status := out\<rparr>))) =
       ''Adjustment Needed''"
proof -
  let ?res = "\<lparr>health_status = 0, confidence = 0.9, mismatch_temperature = False,
            mismatch_humidity = True, mismatch_soil_moisture = False,
            mismatch_light_level = False, recommendation = replicate 256 NUL\<rparr>"
  have l: "length (replicate 32 CHR ''x'') = 32" by simp
  have p: "''Adjustment Needed'' =
      (if health_status ?res = ML_HEALTH_CRITICAL then ''Critical''
       else if health_status ?res = ML_HEALTH_STRESSED then ''Stressed''
       else if mismatch_temperature ?res \<or> mismatch_humidity ?res \<or>
               mismatch_soil_moisture ?res \<or> mismatch_light_level ?res
       then ''Adjustment Needed'' else ''Healthy'')"
    by (simp add: ML_HEALTH_CRITICAL_def ML_HEALTH_STRESSED_def)
  show ?thesis
    using status_string_cases [OF l _ p, of "sample_args 0"] by auto
qed

section \<open>Verification of the sensor history and the health analysis\<close>

lemma upt_5: "[0..<5] = [0, 1, 2, 3, 4]"
  by (simp add: upt_rec)

lemma average_loop_stop: "\<not> j < n \<Longrightarrow> average_loop vals n j acc = acc"
  by (cases acc) (simp add: average_loop.simps)

lemma rolling_average_empty:
  "\<not> h_filled h \<Longrightarrow> h_index h \<le> 0 \<Longrightarrow> rolling_average h current = current"
  by (simp add: rolling_average_def average_loop_stop)

lemma model_input_layout:
  "model_input sd hab =
     [soil_moisture sd, light_level sd, temperature sd, humidity sd, air_movement sd,
      soil_moisture sd - (ideal_soil_moisture_min hab + ideal_soil_moisture_max hab) / 2,
      light_level sd - (ideal_light_level_min hab + ideal_light_level_max hab) / 2,
      temperature sd - (ideal_temperature_min hab + ideal_temperature_max hab) / 2,
      humidity sd - (ideal_humidity_min hab + ideal_humidity_max hab) / 2,
      0,
      rolling_average (history sd ! 0) (soil_moisture sd),
      rolling_average (history sd ! 1) (light_level sd),
      rolling_average (history sd ! 2) (temperature sd),
      rolling_average (history sd ! 3) (humidity sd),
      rolling_average (history sd ! 4) (air_movement sd)]"
  by (simp add: model_input_def upt_5 compute_moisture_diff_def compute_light_diff_def
      compute_temp_diff_def compute_humidity_diff_def)

lemma model_input_sample:
  "model_input sample_sensor_data sample_habitat =
     [40, 60, 22, 55, 10, - 10, 5, 0, 0, 0, 40, 60, 22, 55, 10]"
  by (simp add: model_input_layout sample_sensor_data_def zero_sensor_data_def
      sample_habitat_def empty_history_def rolling_average_empty)

text \<open>
  C6 (as amended). The model input has 15 elements: the five current values (moisture,
  light, temperature, humidity, air), their offsets from the middle of the habitat range
  with a constant 0 for air, and the five rolling averages. For the reading
  \<open>{moisture 40, light 60, temperature 22, humidity 55, air 10}\<close> with the ranges
  \<open>[30,70]\<close>, \<open>[30,80]\<close>, \<open>[18,26]\<close>, \<open>[40,70]\<close> and no history it is
  \<open>[40,60,22,55,10, -10,5,0,0,0, 40,60,22,55,10]\<close>: the humidity offset is \<open>55 - 55 = 0\<close>.
\<close>

theorem feature_vector_example:
  "model_input sd hab =
     [soil_moisture sd, light_level sd, temperature sd, humidity sd, air_movement sd,
      compute_moisture_diff (soil_moisture sd) hab, compute_light_diff (light_level sd) hab,
      compute_temp_diff (temperature sd) hab, compute_humidity_diff (humidity sd) hab, 0,
      rolling_average (history sd ! 0) (soil_moisture sd),
      rolling_average (history sd ! 1) (light_level sd),
      rolling_average (history sd ! 2) (temperature sd),
      rolling_average (history sd ! 3) (humidity sd),
      rolling_average (history sd ! 4) (air_movement sd)] \<and>
   compute_humidity_diff 55 sample_habitat = 0 \<and>
   model_input sample_sensor_data sample_habitat =
     [40, 60, 22, 55, 10, - 10, 5, 0, 0, 0, 40, 60, 22, 55, 10]"
  by (simp add: model_input_sample)
     (simp add: model_input_def upt_5 compute_humidity_diff_def sample_habitat_def)

text \<open>The vector of the claim, with \<open>-2.5\<close> as the humidity offset, is not what the code
  assembles.\<close>

theorem feature_vector_humidity_offset:
  "model_input sample_sensor_data sample_habitat \<noteq>
     [40, 60, 22, 55, 10, - 10, 5, 0, - 2.5, 0, 40, 60, 22, 55, 10]"
  by (simp add: model_input_sample)

lemma c_quot_nonneg: "0 \<le> a \<Longrightarrow> 0 < b \<Longrightarrow> c_quot a b = a div b"
  by (cases "a = 0") (simp_all add: c_quot_def)

lemma length_5:
  assumes "length hs = 5"
  obtains a b c d e where "hs = [a, b, c, d, e]"
proof -
  from assms have "length hs = Suc (Suc (Suc (Suc (Suc 0))))" by simp
  then show ?thesis
    by (auto simp: length_Suc_conv intro: that)
qed

lemma history_push_index: "h_index (history_push h v) = c_rem (h_index h + 1) 24"
  by (simp add: history_push_def Let_def)

lemma history_push_values:
  "h_values (history_push h v) = (h_values h)[nat (h_index h) := v]"
  by (simp add: history_push_def Let_def)

text \<open>With its five channels present, the gate either pushes every channel's value or
  leaves the history alone.\<close>

lemma ml_add_sensor_reading_eq:
  assumes "length (history sd) = 5"
  shows "ml_add_sensor_reading l uptime (Some sd) sm ll t h am =
     Inr (if l = 0 \<or> c_quot uptime 1000 - l \<ge> 3600
          then (c_quot uptime 1000,
                sd\<lparr>soil_moisture := sm, light_level := ll, temperature := t, humidity := h,
                   air_movement := am, timestamp := c_quot uptime 1000,
                   history := [history_push (history sd ! 0) sm,
                               history_push (history sd ! 1) ll,
                               history_push (history sd ! 2) t,
                               history_push (history sd ! 3) h,
                               history_push (history sd ! 4) am]\<rparr>)
          else (l,
                sd\<lparr>soil_moisture := sm, light_level := ll, temperature := t, humidity := h,
                   air_movement := am, timestamp := c_quot uptime 1000\<rparr>))"
proof -
  from assms obtain a b c d e where hs: "history sd = [a, b, c, d, e]"
    by (rule length_5)
  show ?thesis
    by (simp add: ml_add_sensor_reading_def Let_def hs)
qed

text \<open>
  C8 (as amended). A call with a non-null \<open>sensor_data\<close> succeeds and sets the five current
  values and the timestamp whatever the time. It appends to the rolling buffers exactly
  when \<open>last_hourly_update\<close> is 0 (no hourly update recorded yet) or
  \<open>now - last_hourly_update \<ge> 3600\<close>: then each of the five channels stores its value at its
  cursor and advances the cursor by one modulo 24, and \<open>last_hourly_update\<close> becomes \<open>now\<close>.
  Otherwise (an hourly update is recorded and less than 3600 s have passed) no channel's
  buffer, cursor or flag changes and \<open>last_hourly_update\<close> is kept.
\<close>

theorem hourly_gate:
  assumes "length (history sd) = 5" and "now = c_quot uptime 1000"
    and "vs = [sm, ll, t, h, am]"
  shows "\<exists>l' sd'.
     ml_add_sensor_reading l uptime (Some sd) sm ll t h am = Inr (l', sd') \<and>
     soil_moisture sd' = sm \<and> light_level sd' = ll \<and> temperature sd' = t \<and>
     humidity sd' = h \<and> air_movement sd' = am \<and> timestamp sd' = now \<and>
     length (history sd') = 5 \<and>
     (l = 0 \<or> now - l \<ge> 3600 \<longrightarrow>
        l' = now \<and>
        (\<forall>i<5. h_index (history sd' ! i) = c_rem (h_index (history sd ! i) + 1) 24 \<and>
               h_values (history sd' ! i) =
                 (h_values (history sd ! i))[nat (h_index (history sd ! i)) := vs ! i])) \<and>
     (l \<noteq> 0 \<and> now - l < 3600 \<longrightarrow> l' = l \<and> history sd' = history sd)"
proof (cases "l = 0 \<or> now - l \<ge> 3600")
  case True
  have each: "\<forall>i<5. P i" if "P 0" "P 1" "P 2" "P 3" "P 4" for P :: "nat \<Rightarrow> bool"
  proof (intro allI impI)
    fix i :: nat assume "i < 5"
    then consider "i = 0" | "i = 1" | "i = 2" | "i = 3" | "i = 4" by linarith
    then show "P i" using that by cases simp_all
  qed
  define sd' where "sd' = sd\<lparr>soil_moisture := sm, light_level := ll, temperature := t,
      humidity := h, air_movement := am, timestamp := now,
      history := [history_push (history sd ! 0) sm, history_push (history sd ! 1) ll,
                  history_push (history sd ! 2) t, history_push (history sd ! 3) h,
                  history_push (history sd ! 4) am]\<rparr>"
  have run: "ml_add_sensor_reading l uptime (Some sd) sm ll t h am = Inr (now, sd')"
    using True unfolding ml_add_sensor_reading_eq [OF assms(1)] assms(2) [symmetric] sd'_def
    by simp
  have cur: "soil_moisture sd' = sm \<and> light_level sd' = ll \<and> temperature sd' = t \<and>
     humidity sd' = h \<and> air_movement sd' = am \<and> timestamp sd' = now \<and>
     length (history sd') = 5"
    by (simp add: sd'_def)
  have adv: "\<forall>i<5. h_index (history sd' ! i) = c_rem (h_index (history sd ! i) + 1) 24 \<and>
               h_values (history sd' ! i) =
                 (h_values (history sd ! i))[nat (h_index (history sd ! i)) := vs ! i]"
    by (rule each) (simp_all add: sd'_def assms(3) history_push_index history_push_values)
  from True have no: "\<not> (l \<noteq> 0 \<and> now - l < 3600)" by auto
  show ?thesis
    by (rule exI [of _ now], rule exI [of _ sd']) (use run cur adv True no in blast)
next
  case False
  define sd' where "sd' = sd\<lparr>soil_moisture := sm, light_level := ll, temperature := t,
      humidity := h, air_movement := am, timestamp := now\<rparr>"
  have run: "ml_add_sensor_reading l uptime (Some sd) sm ll t h am = Inr (l, sd')"
    using False unfolding ml_add_sensor_reading_eq [OF assms(1)] assms(2) [symmetric] sd'_def
    by simp
  have cur: "soil_moisture sd' = sm \<and> light_level sd' = ll \<and> temperature sd' = t \<and>
     humidity sd' = h \<and> air_movement sd' = am \<and> timestamp sd' = now \<and>
     length (history sd') = 5 \<and> history sd' = history sd"
    using assms(1) by (simp add: sd'_def)
  from False have yes: "l \<noteq> 0 \<and> now - l < 3600" by auto
  show ?thesis
    by (rule exI [of _ l], rule exI [of _ sd']) (use run cur False yes in blast)
qed

theorem hourly_gate_witness:
  "(\<exists>l' sd'. ml_add_sensor_reading 100 200000 (Some zero_sensor_data) 41 61 23 56 11 =
        Inr (l', sd') \<and>
      soil_moisture sd' = 41 \<and> l' = 100 \<and> history sd' = history zero_sensor_data) \<and>
   (\<exists>l' sd'. ml_add_sensor_reading 100 4000000 (Some zero_sensor_data) 41 61 23 56 11 =
        Inr (l', sd') \<and>
      soil_moisture sd' = 41 \<and> l' = 4000 \<and>
      h_index (history sd' ! 0) = 1 \<and> h_index (history sd' ! 4) = 1 \<and>
      h_values (history sd' ! 0) ! 0 = 41)"
proof -
  have len: "length (history zero_sensor_data) = 5"
    by (simp add: zero_sensor_data_def)
  have n1: "200 = c_quot 200000 1000" and n2: "4000 = c_quot 4000000 1000"
    by (simp_all add: c_quot_def)
  have z: "history zero_sensor_data ! 0 = empty_history"
    "history zero_sensor_data ! 4 = empty_history"
    by (simp_all add: zero_sensor_data_def)
  from hourly_gate [OF len n1 refl, of 100 41 61 23 56 11]
  have a: "\<exists>l' sd'. ml_add_sensor_reading 100 200000 (Some zero_sensor_data) 41 61 23 56 11 =
        Inr (l', sd') \<and>
      soil_moisture sd' = 41 \<and> l' = 100 \<and> history sd' = history zero_sensor_data"
    by auto
  from hourly_gate [OF len n2 refl, of 100 41 61 23 56 11]
  obtain l' sd' where r: "ml_add_sensor_reading 100 4000000 (Some zero_sensor_data) 41 61 23 56 11 =
        Inr (l', sd')" "soil_moisture sd' = 41" "l' = 4000"
    and adv: "\<forall>i<5. h_index (history sd' ! i) = c_rem (h_index (history zero_sensor_data ! i) + 1) 24 \<and>
               h_values (history sd' ! i) =
                 (h_values (history zero_sensor_data ! i))
                   [nat (h_index (history zero_sensor_data ! i)) := [41, 61, 23, 56, 11] ! i]"
    by auto
  from adv have "h_index (history sd' ! 0) = 1" "h_index (history sd' ! 4) = 1"
    "h_values (history sd' ! 0) ! 0 = 41"
    by (simp_all add: z empty_history_def c_rem_def)
  with r a show ?thesis by blast
qed

text \<open>
  The claim as stated fails at the first reading after a start: \<open>last_hourly_update\<close> is 0
  and 60 s have passed, fewer than 3600, and yet every cursor advances.
\<close>

theorem hourly_gate_first_reading:
  "c_quot 60000 1000 - 0 < (3600 :: int) \<and>
   map h_index (history zero_sensor_data) = [0, 0, 0, 0, 0] \<and>
   map_sum id (\<lambda>(l', sd'). (l', map h_index (history sd')))
     (ml_add_sensor_reading 0 60000 (Some zero_sensor_data) 41 61 23 56 11) =
     Inr (60, [1, 1, 1, 1, 1])"
proof -
  have len: "length (history zero_sensor_data) = 5"
    by (simp add: zero_sensor_data_def)
  have z: "history zero_sensor_data = replicate 5 empty_history"
    by (simp add: zero_sensor_data_def)
  have r5: "replicate 5 x = [x, x, x, x, x]" for x :: 'a
    by (simp add: numeral_eq_Suc)
  show ?thesis
    unfolding ml_add_sensor_reading_eq [OF len]
    by (simp add: z r5 c_quot_def history_push_def empty_history_def c_rem_def)
qed

lemma emit_True:
  "w < 256 \<Longrightarrow>
   emit True lit (buf, w) =
     (take w buf @ take (255 - w) lit @ [NUL] @ drop (w + length (take (255 - w) lit) + 1) buf,
      w + length lit)"
  by (simp add: emit_def snprintf_at_def Let_def)

lemma emit_False: "emit False lit acc = acc"
  by (cases acc) (simp add: emit_def)

text \<open>The text that \<open>generate_recommendations\<close> leaves in the buffer. When the status is not
  healthy and no flag is set, nothing is written, not even a terminator, and the buffer
  keeps the text it held before the call.\<close>

lemma generate_recommendations_text:
  "c_str (recommendation (generate_recommendations r)) =
     (if health_status r = ML_HEALTH_HEALTHY then ''Plant is healthy. ''
      else if \<not> mismatch_temperature r \<and> \<not> mismatch_humidity r \<and>
              \<not> mismatch_soil_moisture r \<and> \<not> mismatch_light_level r
      then c_str (recommendation r)
      else (if mismatch_temperature r then ''Adjust temperature. '' else []) @
           (if mismatch_humidity r then ''Adjust humidity level. '' else []) @
           (if mismatch_soil_moisture r then ''Adjust watering schedule. '' else []) @
           (if mismatch_light_level r then ''Adjust light exposure. '' else []))"
  by (cases "mismatch_temperature r"; cases "mismatch_humidity r";
      cases "mismatch_soil_moisture r"; cases "mismatch_light_level r")
     (simp_all add: generate_recommendations_def emit_True emit_False c_str_def)

lemma generate_recommendations_fields:
  "health_status (generate_recommendations r) = health_status r"
  "confidence (generate_recommendations r) = confidence r"
  "mismatch_temperature (generate_recommendations r) = mismatch_temperature r"
  "mismatch_humidity (generate_recommendations r) = mismatch_humidity r"
  "mismatch_soil_moisture (generate_recommendations r) = mismatch_soil_moisture r"
  "mismatch_light_level (generate_recommendations r) = mismatch_light_level r"
  by (simp_all add: generate_recommendations_def Let_def split: prod.splits)

text \<open>The flags of a successful analysis come from the comparison with the habitat ranges,
  whatever the interpreter returns.\<close>

lemma mismatch_flags_from_ranges:
  assumes "ml_analyze_plant_health infer (Some sd) (Some hab) (Some res) = Inr r"
  shows "mismatch_temperature r = is_temp_mismatch (temperature sd) hab"
    and "mismatch_humidity r = is_humidity_mismatch (humidity sd) hab"
    and "mismatch_soil_moisture r = is_moisture_mismatch (soil_moisture sd) hab"
    and "mismatch_light_level r = is_light_mismatch (light_level sd) hab"
  using assms
  by (auto simp: ml_analyze_plant_health_def Let_def generate_recommendations_fields
      split: prod.splits if_splits)

lemma class_loop_stressed:
  "class_loop [1 / 10, 4 / 5, 1 / 10] 1 (1 / 10, 0) = (4 / 5, 1)"
  by (simp add: class_loop.simps [of _ 1] class_loop.simps [of _ 2] class_loop.simps [of _ 3])

text \<open>
  C9: the code departs from the claim. The reading lies inside every habitat range, the
  interpreter finds the plant stressed, and the result structure still holds the text of an
  earlier healthy analysis (the caller reuses one static structure). The flags are all
  false and the status is stressed, but the recommendation read from the result is
  "Plant is healthy. ": nothing was written over it.
\<close>

theorem stale_recommendation_when_stressed:
  "map_sum id
     (\<lambda>r. (health_status r, mismatch_temperature r, mismatch_humidity r,
           mismatch_soil_moisture r, mismatch_light_level r, c_str (recommendation r)))
     (ml_analyze_plant_health says_stressed (Some sample_sensor_data) (Some sample_habitat)
        (Some healthy_result)) =
   Inr (ML_HEALTH_STRESSED, False, False, False, False, ''Plant is healthy. '')"
proof -
  have flags: "\<not> is_temp_mismatch (temperature sample_sensor_data) sample_habitat"
    "\<not> is_humidity_mismatch (humidity sample_sensor_data) sample_habitat"
    "\<not> is_moisture_mismatch (soil_moisture sample_sensor_data) sample_habitat"
    "\<not> is_light_mismatch (light_level sample_sensor_data) sample_habitat"
    by (simp_all add: is_temp_mismatch_def is_humidity_mismatch_def is_moisture_mismatch_def
        is_light_mismatch_def sample_sensor_data_def zero_sensor_data_def sample_habitat_def)
  have old: "c_str (recommendation healthy_result) = ''Plant is healthy. ''"
    by (simp add: healthy_result_def c_str_def)
  show ?thesis
    by (simp add: ml_analyze_plant_health_def says_stressed_def class_loop_stressed flags
        generate_recommendations_fields generate_recommendations_text old
        ML_HEALTH_STRESSED_def ML_HEALTH_HEALTHY_def)
qed

lemma average_loop_sum:
  "0 \<le> j \<Longrightarrow> j \<le> n \<Longrightarrow>
   average_loop vals n j (s, c) =
     (s + sum_list (map (\<lambda>k. vals ! k) [nat j..<nat n]), c + (n - j))"
proof (induction "nat (n - j)" arbitrary: j s c)
  case 0
  then have "j = n" by simp
  then show ?case by (simp add: average_loop.simps [of vals n n])
next
  case (Suc k)
  then have lt: "j < n" by simp
  have up: "[nat j..<nat n] = nat j # [nat (j + 1)..<nat n]"
    using lt Suc.prems by (simp add: upt_conv_Cons nat_add_distrib)
  have "average_loop vals n (j + 1) (s + vals ! nat j, c + 1) =
     (s + vals ! nat j + sum_list (map (\<lambda>k. vals ! k) [nat (j + 1)..<nat n]),
      c + 1 + (n - (j + 1)))"
    using Suc.hyps(2) Suc.prems lt by (intro Suc.hyps(1)) simp_all
  then show ?case
    by (subst average_loop.simps) (simp add: lt up)
qed

lemma rolling_average_eq:
  "rolling_average h current =
     (let n = nat (if h_filled h then 24 else h_index h)
      in if n = 0 then current
         else sum_list (map (\<lambda>j. h_values h ! j) [0..<n]) / real n)"
proof (cases "0 \<le> (if h_filled h then 24 else h_index h)")
  case True
  then show ?thesis
    using average_loop_sum [of 0 "if h_filled h then 24 else h_index h" "h_values h" 0 0]
    by (auto simp add: rolling_average_def Let_def)
next
  case False
  then show ?thesis
    by (auto simp add: rolling_average_def Let_def average_loop_stop)
qed

lemma sum_list_nth_take:
  "n \<le> length xs \<Longrightarrow> sum_list (map (\<lambda>j. xs ! j) [0..<n]) = sum_list (take n (xs :: real list))"
proof -
  assume "n \<le> length xs"
  then have "map (\<lambda>j. xs ! j) [0..<n] = take n xs"
    by (intro nth_equalityI) simp_all
  then show ?thesis by simp
qed

lemma sum_list_rotate: "sum_list (rotate k xs) = sum_list (xs :: real list)"
proof -
  have "sum_list (rotate k xs) = sum_list (drop (k mod length xs) xs) + sum_list (take (k mod length xs) xs)"
    by (simp add: rotate_drop_take)
  also have "\<dots> = sum_list (take (k mod length xs) xs @ drop (k mod length xs) xs)"
    by (simp del: append_take_drop_id)
  also have "\<dots> = sum_list xs"
    by (simp only: append_take_drop_id)
  finally show ?thesis .
qed

lemma rolling_average_view:
  assumes "hist_inv h"
  shows "rolling_average h current =
     (if hist_view h = [] then current
      else sum_list (hist_view h) / real (length (hist_view h)))"
proof (cases "h_filled h")
  case True
  have "sum_list (map (\<lambda>j. h_values h ! j) [0..<24]) = sum_list (h_values h)"
    using sum_list_nth_take [of 24 "h_values h"] assms by (simp add: hist_inv_def)
  then show ?thesis
    using True assms
    by (auto simp add: rolling_average_eq hist_view_def hist_inv_def sum_list_rotate)
next
  case False
  have "sum_list (map (\<lambda>j. h_values h ! j) [0..<nat (h_index h)]) =
        sum_list (take (nat (h_index h)) (h_values h))"
    using assms by (intro sum_list_nth_take) (auto simp add: hist_inv_def)
  then show ?thesis
    using False assms
    by (auto simp add: rolling_average_eq hist_view_def hist_inv_def Let_def)
qed


lemma ring_write:
  fixes xs :: "'a list"
  assumes "length xs = C" "n < C"
  shows "take (Suc n) (xs[n := v]) = take n xs @ [v]"
    and "Suc n < C \<Longrightarrow> rotate (Suc n) (xs[n := v]) = tl (rotate n xs) @ [v]"
    and "Suc n = C \<Longrightarrow> xs[n := v] = take n xs @ [v]"
    and "Suc n = C \<Longrightarrow> tl (rotate n xs) = take n xs"
proof -
  show tk: "take (Suc n) (xs[n := v]) = take n xs @ [v]"
    using assms by (simp add: take_Suc_conv_app_nth)
  have dn: "drop n xs = xs ! n # drop (Suc n) xs"
    using assms by (simp add: Cons_nth_drop_Suc)
  have rot: "rotate n xs = drop n xs @ take n xs"
    using assms by (simp add: rotate_drop_take)
  have tlr: "tl (rotate n xs) = drop (Suc n) xs @ take n xs"
    by (simp add: rot dn)
  {
    assume sn: "Suc n < C"
    have "rotate (Suc n) (xs[n := v]) =
          drop (Suc n) (xs[n := v]) @ take (Suc n) (xs[n := v])"
      using assms sn by (simp add: rotate_drop_take del: rotate_Suc)
    also have "\<dots> = drop (Suc n) xs @ take n xs @ [v]"
      by (simp only: tk drop_update_cancel [of n "Suc n"] lessI)
    finally show "rotate (Suc n) (xs[n := v]) = tl (rotate n xs) @ [v]"
      by (simp add: tlr)
  }
  {
    assume sn: "Suc n = C"
    show "xs[n := v] = take n xs @ [v]"
      using tk assms sn by simp
    show "tl (rotate n xs) = take n xs"
      using assms sn by (simp add: tlr)
  }
qed

lemma history_push_view:
  assumes "hist_inv h"
  shows "hist_inv (history_push h v)"
    and "h_index (history_push h v) = (h_index h + 1) mod 24"
    and "h_filled (history_push h v) = (h_filled h \<or> h_index h = 23)"
    and "hist_view (history_push h v) =
           (if h_filled h then tl (hist_view h) @ [v] else hist_view h @ [v])"
proof -
  from assms have len: "length (h_values h) = 24" and i: "0 \<le> h_index h" "h_index h < 24"
    by (auto simp: hist_inv_def)
  define n where "n = nat (h_index h)"
  have n: "n < 24" and hn: "h_index h = int n" using i by (auto simp: n_def)
  have idx: "h_index (history_push h v) = (int n + 1) mod 24"
    by (simp add: history_push_index c_rem_nonneg hn)
  have vals: "h_values (history_push h v) = (h_values h)[n := v]"
    by (simp add: history_push_values n_def)
  have m: "(int n + 1) mod 24 = (if n = 23 then 0 else int n + 1)"
    using n by auto
  have fl: "h_filled (history_push h v) = (h_filled h \<or> n = 23)"
    using n by (simp add: history_push_def Let_def c_rem_nonneg hn m)
  show "hist_inv (history_push h v)"
    using len by (simp add: hist_inv_def idx vals)
  show "h_index (history_push h v) = (h_index h + 1) mod 24"
    by (simp add: idx hn)
  show "h_filled (history_push h v) = (h_filled h \<or> h_index h = 23)"
    by (simp add: fl hn)
  note rw = ring_write [OF len n]
  show "hist_view (history_push h v) =
           (if h_filled h then tl (hist_view h) @ [v] else hist_view h @ [v])"
  proof (cases "n = 23")
    case True
    then have i0: "h_index (history_push h v) = 0" by (simp add: idx)
    have "hist_view (history_push h v) = (h_values h)[n := v]"
      by (simp add: hist_view_def i0 vals fl True)
    also have "\<dots> = take n (h_values h) @ [v]"
      using rw(3) True by simp
    finally show ?thesis
      using rw(4) True by (simp add: hist_view_def hn)
  next
    case False
    then have sn: "Suc n < 24" using n by simp
    then have i1: "nat (h_index (history_push h v)) = Suc n" by (simp add: idx)
    show ?thesis
      using rw(1) rw(2) [OF sn] False
      by (simp add: hist_view_def i1 vals fl hn del: rotate_Suc)
  qed
qed

lemma pushes_view:
  "hist_inv (foldl history_push empty_history vs) \<and>
   h_index (foldl history_push empty_history vs) = int (length vs mod 24) \<and>
   h_filled (foldl history_push empty_history vs) = (24 \<le> length vs) \<and>
   hist_view (foldl history_push empty_history vs) = drop (length vs - 24) vs"
proof (induction vs rule: rev_induct)
  case Nil
  show ?case by (simp add: empty_history_def hist_inv_def hist_view_def)
next
  case (snoc v vs)
  let ?h = "foldl history_push empty_history vs"
  from snoc have inv: "hist_inv ?h" and idx: "h_index ?h = int (length vs mod 24)"
    and fl: "h_filled ?h = (24 \<le> length vs)"
    and vw: "hist_view ?h = drop (length vs - 24) vs"
    by simp_all
  note p = history_push_view [OF inv, of v]
  have i: "h_index (history_push ?h v) = int (Suc (length vs) mod 24)"
    unfolding p(2) idx by (simp add: zmod_int mod_simps ac_simps)
  have f: "h_filled (history_push ?h v) = (24 \<le> Suc (length vs))"
  proof (cases "24 \<le> length vs")
    case True
    then show ?thesis by (simp add: p(3) fl)
  next
    case False
    then have "length vs mod 24 = length vs" by simp
    then show ?thesis using False by (auto simp add: p(3) fl idx)
  qed
  have w: "hist_view (history_push ?h v) = drop (Suc (length vs) - 24) (vs @ [v])"
  proof (cases "24 \<le> length vs")
    case True
    then have d: "length vs - 23 = Suc (length vs - 24)" by simp
    show ?thesis
      using True by (simp add: p(4) fl vw d tl_drop drop_Suc)
  next
    case False
    then show ?thesis by (simp add: p(4) fl vw)
  qed
  show ?case using p(1) i f w by simp
qed

lemma spaced_snoc:
  "spaced (ws @ [w]) \<longleftrightarrow>
   spaced ws \<and> (ws = [] \<or> tick_now w - tick_now (last ws) \<ge> 3600)"
  by (induction ws rule: spaced.induct) auto

lemma all_less_5: "(\<forall>i<5. P i) \<longleftrightarrow> P 0 \<and> P 1 \<and> P 2 \<and> P 3 \<and> P (4 :: nat)"
proof
  assume "\<forall>i<5. P i"
  then show "P 0 \<and> P 1 \<and> P 2 \<and> P 3 \<and> P 4" by simp
next
  assume a: "P 0 \<and> P 1 \<and> P 2 \<and> P 3 \<and> P 4"
  show "\<forall>i<5. P i"
  proof (intro allI impI)
    fix i :: nat assume "i < 5"
    then consider "i = 0" | "i = 1" | "i = 2" | "i = 3" | "i = 4" by linarith
    then show "P i" using a by cases simp_all
  qed
qed

text \<open>Calls that are an hour apart all pass the gate: after them \<open>last_hourly_update\<close> is the
  time of the last call and every channel holds the pushes of its values.\<close>

lemma spaced_run:
  assumes "spaced ws"
  shows "fst (foldl record_tick (0, zero_sensor_data) ws) =
           (if ws = [] then 0 else tick_now (last ws)) \<and>
         length (history (snd (foldl record_tick (0, zero_sensor_data) ws))) = 5 \<and>
         (\<forall>i<5. history (snd (foldl record_tick (0, zero_sensor_data) ws)) ! i =
                  foldl history_push empty_history (map (\<lambda>w. tick_values w ! i) ws))"
  using assms
proof (induction ws rule: rev_induct)
  case Nil
  show ?case by (simp add: zero_sensor_data_def)
next
  case (snoc w ws)
  obtain l sd where st: "foldl record_tick (0, zero_sensor_data) ws = (l, sd)"
    by (cases "foldl record_tick (0, zero_sensor_data) ws")
  obtain uptime sm ll t h am where w: "w = (uptime, sm, ll, t, h, am)"
    by (cases w)
  from snoc.prems have sp: "spaced ws"
    and gap: "ws = [] \<or> tick_now w - tick_now (last ws) \<ge> 3600"
    by (simp_all add: spaced_snoc)
  from snoc.IH [OF sp] st have l: "l = (if ws = [] then 0 else tick_now (last ws))"
    and len: "length (history sd) = 5"
    and hs: "\<forall>i<5. history sd ! i =
                  foldl history_push empty_history (map (\<lambda>w. tick_values w ! i) ws)"
    by simp_all
  have gate: "l = 0 \<or> c_quot uptime 1000 - l \<ge> 3600"
    using gap l by (auto simp: w tick_now_def)
  have step: "record_tick (l, sd) w =
      (c_quot uptime 1000,
       sd\<lparr>soil_moisture := sm, light_level := ll, temperature := t, humidity := h,
          air_movement := am, timestamp := c_quot uptime 1000,
          history := [history_push (history sd ! 0) sm, history_push (history sd ! 1) ll,
                      history_push (history sd ! 2) t, history_push (history sd ! 3) h,
                      history_push (history sd ! 4) am]\<rparr>)"
    using gate by (simp add: record_tick_def w ml_add_sensor_reading_eq [OF len])
  show ?case
    using hs unfolding all_less_5
    by (simp add: st step) (simp add: w tick_now_def tick_values_def)
qed

text \<open>
  C7. The rolling average of a channel is the arithmetic mean of its populated slots, the
  first 24 if the buffer has wrapped and the first \<open>cursor\<close> otherwise, and the channel's
  current value when no slot is populated; element \<open>10 + i\<close> of the model input is that
  average for channel \<open>i\<close>. After \<open>N \<ge> 1\<close> calls at least one hour apart, starting from
  cleared sensor data, it is the mean of the last \<open>min(N, 24)\<close> values written to the
  channel.
\<close>

theorem rolling_average_is_mean:
  "rolling_average h current =
     (let n = nat (if h_filled h then 24 else h_index h)
      in if n = 0 then current
         else sum_list (map (\<lambda>j. h_values h ! j) [0..<n]) / real n) \<and>
   (i < 5 \<longrightarrow>
      model_input sd hab ! (10 + i) =
        rolling_average (history sd ! i) (model_input sd hab ! i)) \<and>
   (spaced ws \<and> ws \<noteq> [] \<and> i < 5 \<longrightarrow>
      rolling_average (history (snd (foldl record_tick (0, zero_sensor_data) ws)) ! i) current =
        sum_list (drop (length ws - 24) (map (\<lambda>w. tick_values w ! i) ws)) /
        real (min (length ws) 24))"
proof (intro conjI impI)
  show "rolling_average h current =
     (let n = nat (if h_filled h then 24 else h_index h)
      in if n = 0 then current
         else sum_list (map (\<lambda>j. h_values h ! j) [0..<n]) / real n)"
    by (rule rolling_average_eq)
next
  assume "i < 5"
  then consider "i = 0" | "i = 1" | "i = 2" | "i = 3" | "i = 4" by linarith
  then show "model_input sd hab ! (10 + i) =
        rolling_average (history sd ! i) (model_input sd hab ! i)"
    by cases (simp_all add: model_input_layout)
next
  assume a: "spaced ws \<and> ws \<noteq> [] \<and> i < 5"
  let ?vs = "map (\<lambda>w. tick_values w ! i) ws"
  let ?h = "history (snd (foldl record_tick (0, zero_sensor_data) ws)) ! i"
  have h: "?h = foldl history_push empty_history ?vs"
    using spaced_run [of ws] a by simp
  have inv: "hist_inv ?h" and vw: "hist_view ?h = drop (length ws - 24) ?vs"
    using pushes_view [of ?vs] unfolding h by simp_all
  from a have "0 < length ws" by simp
  then have "length ws - 24 < length ws" by simp
  then have ne: "hist_view ?h \<noteq> []" by (simp add: vw)
  have ln: "length (hist_view ?h) = min (length ws) 24" by (simp add: vw min_def)
  show "rolling_average ?h current =
        sum_list (drop (length ws - 24) ?vs) / real (min (length ws) 24)"
    using rolling_average_view [OF inv, of current] ne ln by (simp add: vw)
qed

theorem rolling_average_is_mean_witness:
  "rolling_average
     (history (snd (foldl record_tick (0, zero_sensor_data)
        [(60000, 40, 60, 22, 55, 10), (3660000, 50, 61, 23, 56, 11)])) ! 0) 0 = 45"
proof -
  let ?ws = "[(60000, 40, 60, 22, 55, 10), (3660000, 50, 61, 23, 56, 11)] :: tick list"
  have sp: "spaced ?ws \<and> ?ws \<noteq> [] \<and> (0 :: nat) < 5"
    by (simp add: tick_now_def c_quot_def)
  show ?thesis
    using rolling_average_is_mean [where i = 0 and ws = ?ws and current = 0,
        THEN conjunct2, THEN conjunct2, THEN mp, OF sp]
    by (simp add: tick_values_def)
qed

section \<open>Verification of the water consumption analysis\<close>

lemma decline_loop_unfold:
  "decline_loop wp s n i (t, c) =
     (if i < n - 1 then
        (if usable_pair wp s i
         then decline_loop wp s n (i + 1) (t + moisture_diff wp s i, c + 1)
         else if moisture_diff wp s i < - 5 then (t, c)
         else decline_loop wp s n (i + 1) (t, c))
      else (t, c))"
  unfolding usable_pair_def by (rule decline_loop.simps)

lemma decline_loop_stop: "\<not> i < n - 1 \<Longrightarrow> decline_loop wp s n i acc = acc"
  by (cases acc) (simp add: decline_loop_unfold)

lemma decline_loop_usable:
  "i < n - 1 \<Longrightarrow> usable_pair wp s i \<Longrightarrow>
   decline_loop wp s n i (t, c) = decline_loop wp s n (i + 1) (t + moisture_diff wp s i, c + 1)"
  by (simp add: decline_loop_unfold [of wp s n i])

lemma decline_loop_break:
  "i < n - 1 \<Longrightarrow> moisture_diff wp s i < - 5 \<Longrightarrow> decline_loop wp s n i acc = acc"
  by (cases acc) (simp add: decline_loop_unfold [of wp s n i] usable_pair_def)

lemma decline_loop_skip:
  "i < n - 1 \<Longrightarrow> \<not> usable_pair wp s i \<Longrightarrow> \<not> moisture_diff wp s i < - 5 \<Longrightarrow>
   decline_loop wp s n i acc = decline_loop wp s n (i + 1) acc"
  by (cases acc) (simp add: decline_loop_unfold [of wp s n i])

lemma decline_loop_all_usable:
  assumes "\<forall>k. i \<le> k \<and> k < n - 1 \<longrightarrow> usable_pair wp s k"
  shows "0 \<le> i \<Longrightarrow> i \<le> n - 1 \<Longrightarrow>
    decline_loop wp s n i (t, c) =
      (t + sum_list (map (\<lambda>k. moisture_diff wp s (int k)) [nat i..<nat (n - 1)]),
       c + (n - 1 - i))"
  using assms
proof (induction "nat (n - 1 - i)" arbitrary: i t c)
  case 0
  then have "i = n - 1" by simp
  then show ?case by (simp add: decline_loop_stop)
next
  case (Suc d)
  then have lt: "i < n - 1" by simp
  have u: "usable_pair wp s i" using Suc.prems lt by simp
  have up: "[nat i..<nat (n - 1)] = nat i # [nat (i + 1)..<nat (n - 1)]"
    using lt Suc.prems by (simp add: upt_conv_Cons nat_add_distrib)
  have "decline_loop wp s n (i + 1) (t + moisture_diff wp s i, c + 1) =
      (t + moisture_diff wp s i +
         sum_list (map (\<lambda>k. moisture_diff wp s (int k)) [nat (i + 1)..<nat (n - 1)]),
       c + 1 + (n - 1 - (i + 1)))"
    using Suc.hyps(2) Suc.prems lt by (intro Suc.hyps(1)) simp_all
  then show ?case
    using Suc.prems by (simp add: decline_loop_usable [OF lt u] up)
qed

lemma decline_loop_truncate:
  assumes "0 \<le> j" "j < n - 1" "moisture_diff wp s j < - 5"
  shows "i \<le> j \<Longrightarrow> decline_loop wp s n i acc = decline_loop wp s (j + 1) i acc"
proof (induction "nat (j - i)" arbitrary: i acc)
  case 0
  then have "i = j" by simp
  then show ?case
    using assms by (simp add: decline_loop_break decline_loop_stop)
next
  case (Suc d)
  then have lt: "i < j" by simp
  obtain t c where acc: "acc = (t, c)" by (cases acc)
  have ih: "decline_loop wp s n (i + 1) a = decline_loop wp s (j + 1) (i + 1) a" for a
    using Suc.hyps(2) lt by (intro Suc.hyps(1)) simp_all
  show ?case
    unfolding acc
    by (subst decline_loop_unfold, subst (2) decline_loop_unfold) (use lt assms ih in auto)
qed


lemma half_loop_sum:
  "0 \<le> i \<Longrightarrow> i \<le> b \<Longrightarrow>
   half_loop wp s i b r =
     r + sum_list (map (\<lambda>k. max 0 (moisture_diff wp s (int k))) [nat i..<nat b])"
proof (induction "nat (b - i)" arbitrary: i r)
  case 0
  then have "i = b" by simp
  then show ?case by (simp add: half_loop.simps [of wp s b b])
next
  case (Suc d)
  then have lt: "i < b" by simp
  have up: "[nat i..<nat b] = nat i # [nat (i + 1)..<nat b]"
    using lt Suc.prems by (simp add: upt_conv_Cons nat_add_distrib)
  have ih: "half_loop wp s (i + 1) b r' =
      r' + sum_list (map (\<lambda>k. max 0 (moisture_diff wp s (int k))) [nat (i + 1)..<nat b])" for r'
    using Suc.hyps(2) Suc.prems lt by (intro Suc.hyps(1)) simp_all
  show ?case
    using Suc.prems by (subst half_loop.simps) (simp add: lt up ih max_def)
qed


lemma window_halves:
  assumes "0 \<le> c" "0 \<le> h" "h \<le> c"
  shows "sum_list (map f [0..<nat h]) = sum_list (take (nat h) (map f [0..<nat c]))"
    and "sum_list (map f [nat h..<nat c]) = sum_list (drop (nat h) (map f [0..<nat c]))"
proof -
  have "nat h \<le> nat c" using assms by simp
  then show "sum_list (map f [0..<nat h]) = sum_list (take (nat h) (map f [0..<nat c]))"
    by (simp add: take_map min_def)
  show "sum_list (map f [nat h..<nat c]) = sum_list (drop (nat h) (map f [0..<nat c]))"
    by (simp add: drop_map)
qed

text \<open>The comparison the code makes, on the list of the first \<open>count\<close> differences of the
  walk.\<close>

lemma declining_eq:
  "declining wp =
     (let c = snd (decline_totals wp); w = window_diffs wp
      in 48 \<le> c \<and>
         sum_list (take (nat (c div 2)) w) / real_of_int (c div 2) <
         sum_list (drop (nat (c div 2)) w) / real_of_int (c - c div 2))"
proof (cases "48 \<le> snd (decline_totals wp)")
  case False
  then show ?thesis by (simp add: declining_def Let_def)
next
  case True
  define c where "c = snd (decline_totals wp)"
  have c: "48 \<le> c" using True by (simp add: c_def)
  then have q: "c_quot c 2 = c div 2" by (simp add: c_quot_nonneg)
  have h: "0 \<le> c div 2" "c div 2 \<le> c" using c by simp_all
  have c0: "0 \<le> c" using c by simp
  let ?f = "\<lambda>k. max 0 (moisture_diff wp (start_idx wp) (int k))"
  have r: "half_loop wp (start_idx wp) 0 (c div 2) 0 =
      sum_list (take (nat (c div 2)) (window_diffs wp))"
    using half_loop_sum [of 0 "c div 2" wp "start_idx wp" 0] h
      window_halves(1) [OF c0 h, of ?f]
    by (simp add: window_diffs_def c_def)
  have o: "half_loop wp (start_idx wp) (c div 2) c 0 =
      sum_list (drop (nat (c div 2)) (window_diffs wp))"
    using half_loop_sum [of "c div 2" c wp "start_idx wp" 0] h
      window_halves(2) [OF c0 h, of ?f]
    by (simp add: window_diffs_def c_def)
  show ?thesis
    using c by (simp add: declining_def Let_def c_def [symmetric] q r o)
qed

lemma predict_insufficient:
  "\<not> wh_filled wp \<Longrightarrow> wh_index wp < 48 \<Longrightarrow>
   water_analysis_predict_watering wp uptime (Some po) cm thr =
     Inr (wp\<lparr>next_watering_timestamp := 0, prediction_confidence := 0\<rparr>)"
  by (simp add: water_analysis_predict_watering_def)

lemma predict_sufficient:
  assumes "wh_filled wp \<or> 48 \<le> wh_index wp"
  shows "\<exists>out. water_analysis_predict_watering wp uptime (Some po) cm thr = Inr out \<and>
     daily_consumption_rate out = hourly_decline_rate wp * 24 \<and>
     declining_consumption out = declining wp \<and>
     prediction_confidence out =
       (if hourly_decline_rate wp * 24 > 0.01 then
          (if cm > thr \<and> (cm - thr) / hourly_decline_rate wp > 0 then confidence_of wp
           else 100)
        else 0) \<and>
     next_watering_timestamp out =
       (if hourly_decline_rate wp * 24 > 0.01 then
          (if cm > thr \<and> (cm - thr) / hourly_decline_rate wp > 0
           then c_quot uptime 1000 + c_trunc ((cm - thr) / hourly_decline_rate wp * 3600)
           else c_quot uptime 1000)
        else 0)"
  using assms by (auto simp add: water_analysis_predict_watering_def Let_def)


lemma wrap_168: "0 \<le> a \<Longrightarrow> a < 168 \<Longrightarrow> c_rem (a + 168) 168 = a"
  by (simp add: c_rem_nonneg)

lemma history_of_walk:
  assumes "n < 168"
  shows "usable_samples (history_of n m) = int n"
    and "0 < n \<Longrightarrow> start_idx (history_of n m) = int n - 1"
proof -
  show "usable_samples (history_of n m) = int n"
    by (simp add: usable_samples_def history_of_def)
  assume "0 < n"
  then have "c_rem (int n - 1 + 168) 168 = int n - 1"
    using assms by (intro wrap_168) simp_all
  moreover have "int n + 168 - 1 = int n - 1 + 168" by simp
  ultimately show "start_idx (history_of n m) = int n - 1"
    by (simp only: start_idx_def history_of_def WATER_HISTORY_SIZE_def
        water_consumption_pattern.simps)
qed

lemma history_of_indices:
  assumes "n < 168" "0 \<le> k" "k < int n - 1"
  shows "nat (current_idx (int n - 1) k) = n - 1 - nat k"
    and "nat (prev_idx (int n - 1) k) = n - 2 - nat k"
    and "n - 1 - nat k < n" and "n - 2 - nat k < n"
proof -
  have "c_rem (int n - 1 - k + 168) 168 = int n - 1 - k"
    using assms by (intro wrap_168) simp_all
  then have c: "current_idx (int n - 1) k = int n - 1 - k"
    by (simp only: current_idx_def WATER_HISTORY_SIZE_def)
  have "c_rem (int n - 2 - k + 168) 168 = int n - 2 - k"
    using assms by (intro wrap_168) simp_all
  moreover have "int n - 1 - k - 1 + 168 = int n - 2 - k + 168" by simp
  ultimately have p: "prev_idx (int n - 1) k = int n - 2 - k"
    by (simp only: prev_idx_def c WATER_HISTORY_SIZE_def)
  show "nat (current_idx (int n - 1) k) = n - 1 - nat k"
    using assms by (simp add: c nat_diff_distrib')
  show "nat (prev_idx (int n - 1) k) = n - 2 - nat k"
    using assms by (simp add: p nat_diff_distrib')
  show "n - 1 - nat k < n" "n - 2 - nat k < n"
    using assms by simp_all
qed

lemma history_of_diffs:
  assumes "n < 168" "0 \<le> k" "k < int n - 1"
  shows "moisture_diff (history_of n m) (int n - 1) k = m (n - 2 - nat k) - m (n - 1 - nat k)"
    and "time_diff (history_of n m) (int n - 1) k = 3600"
proof -
  note i = history_of_indices [OF assms]
  show "moisture_diff (history_of n m) (int n - 1) k = m (n - 2 - nat k) - m (n - 1 - nat k)"
    using i(3,4) by (simp add: moisture_diff_def history_of_def i(1,2) nth_append)
  have "int (n - 1 - nat k) - int (n - 2 - nat k) = 1"
    using assms by simp
  then have "3600 * int (n - 1 - nat k) - 3600 * int (n - 2 - nat k) = 3600"
    by simp
  then show "time_diff (history_of n m) (int n - 1) k = 3600"
    using i(3,4) by (simp add: time_diff_def history_of_def i(1,2) nth_append)
qed

text \<open>\<open>history_of\<close> is the state that the calls of \<open>water_analysis_add_reading\<close> produce.\<close>

lemma history_of_added:
  "n < 168 \<Longrightarrow> foldl (add_hourly m) (snd water_analysis_init) [0..<n] = history_of n m"
proof (induction n)
  case 0
  show ?case
    by (simp add: water_analysis_init_def history_of_def WATER_HISTORY_SIZE_def)
next
  case (Suc n)
  then have ih: "foldl (add_hourly m) (snd water_analysis_init) [0..<n] = history_of n m"
    and n: "Suc n < 168" by simp_all
  have r: "replicate (168 - n) (0 :: 'a :: zero) = 0 # replicate (168 - Suc n) 0"
    using n by (cases "168 - n") simp_all
  have u: "(map f [0..<n] @ replicate (168 - n) 0)[n := f n] =
        map f [0..<Suc n] @ replicate (168 - Suc n) (0 :: 'a :: zero)" for f
    by (subst r) (simp add: list_update_append)
  have rem: "c_rem (int n + 1) WATER_HISTORY_SIZE = int (Suc n)"
    using n by (simp add: WATER_HISTORY_SIZE_def c_rem_nonneg)
  have "add_hourly m (history_of n m) n = history_of (Suc n) m"
    using u [of m] u [of "\<lambda>k. 3600 * int k"]
    by (simp add: add_hourly_def water_analysis_add_reading_def Let_def history_of_def rem
        del: upt_Suc replicate_Suc)
  then show ?case by (simp add: ih)
qed









lemma watered_diffs:
  "moisture_diff (history_of 48 decline_then_watered) 47 0 = 1"
  "moisture_diff (history_of 48 decline_then_watered) 47 1 = 1"
  "moisture_diff (history_of 48 decline_then_watered) 47 2 = - 32"
  "time_diff (history_of 48 decline_then_watered) 47 0 = 3600"
  "time_diff (history_of 48 decline_then_watered) 47 1 = 3600"
  using history_of_diffs [of 48 0 decline_then_watered]
    history_of_diffs [of 48 1 decline_then_watered]
    history_of_diffs [of 48 2 decline_then_watered]
  by (simp_all add: decline_then_watered_def)

lemma watered_walk:
  "start_idx (history_of 48 decline_then_watered) = 47"
  "usable_samples (history_of 48 decline_then_watered) = 48"
  "decline_loop (history_of 48 decline_then_watered) 47 3 0 (0, 0) = (2, 2)"
proof -
  show "start_idx (history_of 48 decline_then_watered) = 47"
    using history_of_walk(2) [of 48 decline_then_watered] by simp
  show "usable_samples (history_of 48 decline_then_watered) = 48"
    using history_of_walk(1) [of 48 decline_then_watered] by simp
  have u: "usable_pair (history_of 48 decline_then_watered) 47 0"
    "usable_pair (history_of 48 decline_then_watered) 47 1"
    by (simp_all add: usable_pair_def watered_diffs)
  show "decline_loop (history_of 48 decline_then_watered) 47 3 0 (0, 0) = (2, 2)"
    using u
    by (simp add: decline_loop_unfold [of _ _ _ 0] decline_loop_unfold [of _ _ _ 1]
        decline_loop_unfold [of _ _ _ 2] watered_diffs)
qed

text \<open>
  C4 (as amended). A pair of the backward walk whose \<open>moisture_diff = older - newer\<close> is
  below \<open>-5\<close> stops the walk: the totals are those of the walk over the samples from that
  pair's newer sample on, so no older sample contributes to the decline rate. For a history
  of 48 hourly samples that ends \<open>20, 19, 18, 50, 49, 48\<close> (oldest to newest; the rise from
  18 to 50 has \<open>moisture_diff = -32\<close>) the rate is computed over \<open>50, 49, 48\<close> only: two pairs
  with a total decline of 2, one point an hour, 24 a day.
\<close>

theorem walk_stops_at_watering:
  "(0 \<le> j \<and> j < usable_samples wp - 1 \<and> moisture_diff wp (start_idx wp) j < - 5 \<longrightarrow>
      decline_totals wp = decline_loop wp (start_idx wp) (j + 1) 0 (0, 0)) \<and>
   map decline_then_watered [42..<48] = [20, 19, 18, 50, 49, 48] \<and>
   moisture_diff (history_of 48 decline_then_watered)
     (start_idx (history_of 48 decline_then_watered)) 2 = - 32 \<and>
   decline_totals (history_of 48 decline_then_watered) = (2, 2) \<and>
   hourly_decline_rate (history_of 48 decline_then_watered) = 1 \<and>
   (\<exists>out. water_analysis_predict_watering (history_of 48 decline_then_watered) uptime
            (Some po) cm thr = Inr out \<and> daily_consumption_rate out = 24)"
proof (intro conjI impI)
  assume "0 \<le> j \<and> j < usable_samples wp - 1 \<and> moisture_diff wp (start_idx wp) j < - 5"
  then show "decline_totals wp = decline_loop wp (start_idx wp) (j + 1) 0 (0, 0)"
    unfolding decline_totals_def by (intro decline_loop_truncate) simp_all
next
  let ?wp = "history_of 48 decline_then_watered"
  have up: "[42..<48] = [42, 43, 44, 45, 46, 47]"
    by (simp add: upt_rec)
  show "map decline_then_watered [42..<48] = [20, 19, 18, 50, 49, 48]"
    by (simp add: up decline_then_watered_def)
  show "moisture_diff ?wp (start_idx ?wp) 2 = - 32"
    by (simp add: watered_walk watered_diffs)
  have "decline_totals ?wp = decline_loop ?wp 47 (2 + 1) 0 (0, 0)"
    unfolding decline_totals_def watered_walk(1,2)
    by (rule decline_loop_truncate) (simp_all add: watered_diffs)
  then show tot: "decline_totals ?wp = (2, 2)"
    by (simp add: watered_walk(3))
  show rate: "hourly_decline_rate ?wp = 1"
    by (simp add: hourly_decline_rate_def tot)
  have "wh_filled ?wp \<or> 48 \<le> wh_index ?wp" by (simp add: history_of_def)
  from predict_sufficient [OF this, of uptime po cm thr]
  show "\<exists>out. water_analysis_predict_watering ?wp uptime (Some po) cm thr = Inr out \<and>
      daily_consumption_rate out = 24"
    by (auto simp: rate)
qed

theorem walk_stops_at_watering_witness:
  "decline_totals (history_of 48 decline_then_watered) =
     decline_loop (history_of 48 decline_then_watered)
       (start_idx (history_of 48 decline_then_watered)) 3 0 (0, 0) \<and>
   decline_loop (history_of 48 decline_then_watered)
       (start_idx (history_of 48 decline_then_watered)) 3 0 (0, 0) = (2, 2)"
proof -
  let ?wp = "history_of 48 decline_then_watered"
  have h: "0 \<le> (2 :: int) \<and> 2 < usable_samples ?wp - 1 \<and>
      moisture_diff ?wp (start_idx ?wp) 2 < - 5"
    by (simp add: watered_walk watered_diffs)
  show ?thesis
    using walk_stops_at_watering [where wp = ?wp and j = 2, THEN conjunct1, THEN mp, OF h]
    by (simp add: watered_walk)
qed

lemma example_diffs:
  "moisture_diff (history_of 6 spec_example) 5 0 = 1"
  "moisture_diff (history_of 6 spec_example) 5 1 = 1"
  "moisture_diff (history_of 6 spec_example) 5 2 = 28"
  "moisture_diff (history_of 6 spec_example) 5 3 = 1"
  "moisture_diff (history_of 6 spec_example) 5 4 = 1"
  "time_diff (history_of 6 spec_example) 5 0 = 3600"
  "time_diff (history_of 6 spec_example) 5 1 = 3600"
  "time_diff (history_of 6 spec_example) 5 2 = 3600"
  "time_diff (history_of 6 spec_example) 5 3 = 3600"
  "time_diff (history_of 6 spec_example) 5 4 = 3600"
  using history_of_diffs [of 6 0 spec_example] history_of_diffs [of 6 1 spec_example]
    history_of_diffs [of 6 2 spec_example] history_of_diffs [of 6 3 spec_example]
    history_of_diffs [of 6 4 spec_example]
  by (simp_all add: spec_example_def)

text \<open>
  The example of the claim fails twice. In the history \<open>50, 49, 48, 20, 19, 18\<close> (oldest to
  newest) the step from 48 to 20 is a fall: its \<open>moisture_diff\<close> is \<open>+28\<close>, the walk does not
  stop there, and all five pairs are counted (a total decline of 32, not the 2 of
  \<open>20, 19, 18\<close>). And with six samples the prediction stops before the walk: it returns
  the insufficient-data result.
\<close>

theorem walk_counts_sharp_fall:
  "map spec_example [0..<6] = [50, 49, 48, 20, 19, 18] \<and>
   moisture_diff (history_of 6 spec_example) (start_idx (history_of 6 spec_example)) 2 = 28 \<and>
   decline_totals (history_of 6 spec_example) = (32, 5) \<and>
   hourly_decline_rate (history_of 6 spec_example) = 32 / 5 \<and>
   water_analysis_predict_watering (history_of 6 spec_example) 21600000
       (Some (snd water_analysis_init)) 18 30 =
     Inr (history_of 6 spec_example)"
proof -
  let ?wp = "history_of 6 spec_example"
  have s: "start_idx ?wp = 5" using history_of_walk(2) [of 6 spec_example] by simp
  have n: "usable_samples ?wp = 6" using history_of_walk(1) [of 6 spec_example] by simp
  have up: "[0..<6] = [0, 1, 2, 3, 4, 5]" by (simp add: upt_rec)
  have tot: "decline_totals ?wp = (32, 5)"
    unfolding decline_totals_def s n
    by (simp add: decline_loop_unfold [of _ _ _ 0] decline_loop_unfold [of _ _ _ 1]
        decline_loop_unfold [of _ _ _ 2] decline_loop_unfold [of _ _ _ 3]
        decline_loop_unfold [of _ _ _ 4] decline_loop_unfold [of _ _ _ 5]
        usable_pair_def example_diffs)
  have early: "water_analysis_predict_watering ?wp 21600000
       (Some (snd water_analysis_init)) 18 30 = Inr ?wp"
    by (simp add: water_analysis_predict_watering_def history_of_def)
  show ?thesis
    using early by (simp add: s example_diffs tot hourly_decline_rate_def up spec_example_def)
qed


lemma add_reading_keeps_flag:
  "declining_consumption
     (foldl (\<lambda>wp (m, t). snd (water_analysis_add_reading wp m t)) wp rs) =
   declining_consumption wp"
  by (induction rs arbitrary: wp)
     (simp_all add: water_analysis_add_reading_def Let_def split: prod.splits)

text \<open>
  C5 (as amended). The prediction always succeeds for a non-null \<open>pattern_out\<close>. When the
  history holds fewer than 48 samples, \<open>declining_consumption\<close> is the module's stored
  flag, which is false after initialisation and after any readings added since. Otherwise,
  with \<open>count\<close> the number of usable decline samples of the walk, it is true iff
  \<open>count \<ge> 48\<close> and, of the \<open>count\<close> most recent consecutive pairs taken by position
  (usable or not, a pair without a fall counting as 0), the sum over the more recent
  \<open>count / 2\<close> pairs divided by \<open>count / 2\<close> is strictly lower than the sum over the other
  \<open>count - count / 2\<close> pairs divided by \<open>count - count / 2\<close>.
\<close>

theorem declining_compares_window_halves:
  "(\<exists>out. water_analysis_predict_watering wp uptime (Some po) cm thr = Inr out \<and>
      declining_consumption out =
        (if \<not> wh_filled wp \<and> wh_index wp < 48 then declining_consumption wp
         else (let c = snd (decline_totals wp); w = window_diffs wp
               in 48 \<le> c \<and>
                  sum_list (take (nat (c div 2)) w) / real_of_int (c div 2) <
                  sum_list (drop (nat (c div 2)) w) / real_of_int (c - c div 2)))) \<and>
   declining_consumption
     (foldl (\<lambda>wp (m, t). snd (water_analysis_add_reading wp m t))
        (snd water_analysis_init) rs) = False"
proof
  show "\<exists>out. water_analysis_predict_watering wp uptime (Some po) cm thr = Inr out \<and>
      declining_consumption out =
        (if \<not> wh_filled wp \<and> wh_index wp < 48 then declining_consumption wp
         else (let c = snd (decline_totals wp); w = window_diffs wp
               in 48 \<le> c \<and>
                  sum_list (take (nat (c div 2)) w) / real_of_int (c div 2) <
                  sum_list (drop (nat (c div 2)) w) / real_of_int (c - c div 2)))"
  proof (cases "\<not> wh_filled wp \<and> wh_index wp < 48")
    case True
    then show ?thesis by (simp add: predict_insufficient)
  next
    case False
    then have suff: "wh_filled wp \<or> 48 \<le> wh_index wp" by auto
    from predict_sufficient [OF suff, of uptime po cm thr]
    obtain out where "water_analysis_predict_watering wp uptime (Some po) cm thr = Inr out"
      and "declining_consumption out = declining wp"
      by blast
    then show ?thesis
      unfolding if_not_P [OF False] by (simp add: declining_eq)
  qed
  show "declining_consumption
     (foldl (\<lambda>wp (m, t). snd (water_analysis_add_reading wp m t))
        (snd water_analysis_init) rs) = False"
    by (simp add: add_reading_keeps_flag water_analysis_init_def)
qed

lemma usable_positions_unfold:
  "usable_positions wp s n i =
     (if i < n - 1 then
        (if usable_pair wp s i then i # usable_positions wp s n (i + 1)
         else if moisture_diff wp s i < - 5 then []
         else usable_positions wp s n (i + 1))
      else [])"
  unfolding usable_pair_def by (rule usable_positions.simps)

lemma usable_positions_all:
  assumes "\<forall>k. i \<le> k \<and> k < n - 1 \<longrightarrow> usable_pair wp s k"
  shows "0 \<le> i \<Longrightarrow> i \<le> n - 1 \<Longrightarrow>
    usable_positions wp s n i = map int [nat i..<nat (n - 1)]"
  using assms
proof (induction "nat (n - 1 - i)" arbitrary: i)
  case 0
  then have "i = n - 1" by simp
  then show ?case by (simp add: usable_positions_unfold [of wp s n "n - 1"])
next
  case (Suc d)
  then have lt: "i < n - 1" by simp
  have u: "usable_pair wp s i" using Suc.prems lt by simp
  have up: "[nat i..<nat (n - 1)] = nat i # [nat (i + 1)..<nat (n - 1)]"
    using lt Suc.prems by (simp add: upt_conv_Cons nat_add_distrib)
  have "usable_positions wp s n (i + 1) = map int [nat (i + 1)..<nat (n - 1)]"
    using Suc.hyps(2) Suc.prems lt by (intro Suc.hyps(1)) simp_all
  then show ?case
    using Suc.prems lt u by (simp add: usable_positions_unfold [of wp s n i] up)
qed

text \<open>The history of 50 hourly readings that fall by one point an hour, except that the
  newest repeats the one before it: 48 usable pairs, each with a fall of one point.\<close>

lemma flat_diffs:
  assumes "0 \<le> k" "k < 49"
  shows "moisture_diff (history_of 50 decline_then_flat) 49 k = (if k = 0 then 0 else 1)"
    and "time_diff (history_of 50 decline_then_flat) 49 k = 3600"
proof -
  have "50 - 1 - nat k = Suc (50 - 2 - nat k)" using assms by simp
  then have "decline_then_flat (50 - 2 - nat k) - decline_then_flat (50 - 1 - nat k) =
      (if k = 0 then 0 else 1)"
    using assms by (auto simp add: decline_then_flat_def)
  then show "moisture_diff (history_of 50 decline_then_flat) 49 k = (if k = 0 then 0 else 1)"
    using history_of_diffs(1) [of 50 k decline_then_flat] assms by simp
  show "time_diff (history_of 50 decline_then_flat) 49 k = 3600"
    using history_of_diffs(2) [of 50 k decline_then_flat] assms by simp
qed

lemma flat_walk:
  "start_idx (history_of 50 decline_then_flat) = 49"
  "usable_samples (history_of 50 decline_then_flat) = 50"
  "decline_totals (history_of 50 decline_then_flat) = (48, 48)"
  "usable_diffs (history_of 50 decline_then_flat) = replicate 48 1"
  "window_diffs (history_of 50 decline_then_flat) = 0 # replicate 47 1"
proof -
  let ?wp = "history_of 50 decline_then_flat"
  show s: "start_idx ?wp = 49" using history_of_walk(2) [of 50 decline_then_flat] by simp
  show n: "usable_samples ?wp = 50" using history_of_walk(1) [of 50 decline_then_flat] by simp
  have u: "\<forall>k. 1 \<le> k \<and> k < 50 - 1 \<longrightarrow> usable_pair ?wp 49 k"
    by (simp add: usable_pair_def flat_diffs)
  have nu: "\<not> usable_pair ?wp 49 0" "\<not> moisture_diff ?wp 49 0 < - 5"
    by (simp_all add: usable_pair_def flat_diffs)
  have ones: "map (\<lambda>k. moisture_diff ?wp 49 (int k)) [Suc 0..<49] = replicate 48 1"
  proof -
    have "map (\<lambda>k. moisture_diff ?wp 49 (int k)) [Suc 0..<49] = map (\<lambda>k. 1) [Suc 0..<49]"
      by (intro map_cong refl) (simp add: flat_diffs)
    then show ?thesis by (simp add: map_replicate_const)
  qed
  have ones': "map (\<lambda>k. max 0 (moisture_diff ?wp 49 (int k))) [Suc 0..<48] = replicate 47 1"
  proof -
    have "map (\<lambda>k. max 0 (moisture_diff ?wp 49 (int k))) [Suc 0..<48] =
          map (\<lambda>k. 1) [Suc 0..<48]"
      by (intro map_cong refl) (simp add: flat_diffs)
    then show ?thesis by (simp add: map_replicate_const)
  qed
  have "decline_loop ?wp 49 50 0 (0, 0) = decline_loop ?wp 49 50 (0 + 1) (0, 0)"
    by (rule decline_loop_skip) (simp_all add: nu)
  also have "\<dots> = (48, 48)"
    using decline_loop_all_usable [OF u, of 0 0] by (simp add: ones sum_list_replicate)
  finally show tot: "decline_totals ?wp = (48, 48)"
    by (simp add: decline_totals_def s n)
  have "usable_positions ?wp 49 50 0 = usable_positions ?wp 49 50 (0 + 1)"
    by (subst usable_positions_unfold) (simp add: nu)
  also have "\<dots> = map int [1..<49]"
    using usable_positions_all [OF u] by simp
  finally have pos: "usable_positions ?wp 49 50 0 = map int [1..<49]" .
  show "usable_diffs ?wp = replicate 48 1"
    by (simp add: usable_diffs_def s n pos comp_def ones)
  have "[0..<48] = 0 # [Suc 0..<48]" by (simp add: upt_rec)
  then show "window_diffs ?wp = 0 # replicate 47 1"
    by (simp add: window_diffs_def tot s ones' flat_diffs)
qed

text \<open>
  The claim as stated fails on that history. Its 48 usable samples all show the same
  fall, so neither half of them has a lower mean than the other; but the code compares
  positions 0 to 23 of the walk, which hold the flat pair and 23 usable ones, with positions
  24 to 47, and reports a declining consumption.
\<close>

theorem declining_counts_unusable_pair:
  "usable_diffs (history_of 50 decline_then_flat) = replicate 48 1 \<and>
   \<not> spec_declining (history_of 50 decline_then_flat) \<and>
   map_sum id declining_consumption
     (water_analysis_predict_watering (history_of 50 decline_then_flat) 180000000
        (Some (snd water_analysis_init)) 52 30) = Inr True"
proof -
  let ?wp = "history_of 50 decline_then_flat"
  have spec: "\<not> spec_declining ?wp"
    by (simp add: spec_declining_def flat_walk(4) mean_def Let_def sum_list_replicate)
  have d: "declining ?wp"
    by (simp add: declining_eq flat_walk(3,5) Let_def sum_list_replicate)
  have "wh_filled ?wp \<or> 48 \<le> wh_index ?wp" by (simp add: history_of_def)
  from predict_sufficient [OF this, of 180000000 "snd water_analysis_init" 52 30]
  obtain out where "water_analysis_predict_watering ?wp 180000000
        (Some (snd water_analysis_init)) 52 30 = Inr out"
    and "declining_consumption out = declining ?wp"
    by blast
  then show ?thesis
    using spec d by (simp add: flat_walk(4))
qed

end
